theory Spec2Isabelle
  imports Complex_Main "HOL-Library.Word" "HOL-Library.Multiset"
begin

unbundle bit_operations_syntax

section \<open>JavaScript strings and bytes\<close>

text \<open>
  A JavaScript string is a sequence of UTF-16 code units and \<open>.length\<close> counts code
  units. \<open>TextEncoder.encode\<close> turns the string into UTF-8 bytes. Both are modelled
  as they are, since the synthesizer measures the first and emits the second.
\<close>

type_synonym jschar = "16 word"
type_synonym jsstring = "jschar list"
type_synonym byte = "8 word"

definition ascii :: "string \<Rightarrow> jsstring" where
  "ascii s = map (\<lambda>c. of_nat (of_char c)) s"

definition LF :: jschar where
  "LF = 0x0A"

definition isHighSurrogate :: "jschar \<Rightarrow> bool" where
  "isHighSurrogate c \<longleftrightarrow> 0xD800 \<le> c \<and> c < 0xDC00"

definition isLowSurrogate :: "jschar \<Rightarrow> bool" where
  "isLowSurrogate c \<longleftrightarrow> 0xDC00 \<le> c \<and> c < 0xE000"

text \<open>The UTF-8 bytes of one code point, given as a natural number below \<open>0x110000\<close>.\<close>

definition utf8_codepoint :: "nat \<Rightarrow> byte list" where
  "utf8_codepoint n =
     (if n < 0x80 then [of_nat n]
      else if n < 0x800 then [of_nat (0xC0 + n div 64), of_nat (0x80 + n mod 64)]
      else if n < 0x10000 then
        [of_nat (0xE0 + n div 4096), of_nat (0x80 + (n div 64) mod 64), of_nat (0x80 + n mod 64)]
      else
        [of_nat (0xF0 + n div 262144), of_nat (0x80 + (n div 4096) mod 64),
         of_nat (0x80 + (n div 64) mod 64), of_nat (0x80 + n mod 64)])"

text \<open>
  \<open>new TextEncoder().encode(s)\<close>: a surrogate pair is one code point of four bytes, a
  lone surrogate is replaced by U+FFFD, every other code unit is its own code point.
\<close>

fun encode :: "jsstring \<Rightarrow> byte list" where
  "encode [] = []"
| "encode [c] =
     (if isHighSurrogate c \<or> isLowSurrogate c then utf8_codepoint 0xFFFD
      else utf8_codepoint (unat c))"
| "encode (c # d # cs) =
     (if isHighSurrogate c then
        (if isLowSurrogate d
         then utf8_codepoint (0x10000 + (unat c - 0xD800) * 1024 + (unat d - 0xDC00)) @ encode cs
         else utf8_codepoint 0xFFFD @ encode (d # cs))
      else if isLowSurrogate c then utf8_codepoint 0xFFFD @ encode (d # cs)
      else utf8_codepoint (unat c) @ encode (d # cs))"

text \<open>\<open>String(n)\<close> for a non-negative integer: its decimal digits.\<close>

fun toString :: "nat \<Rightarrow> jsstring" where
  "toString n =
     (if n < 10 then [of_nat (48 + n)]
      else toString (n div 10) @ [of_nat (48 + n mod 10)])"

declare toString.simps [simp del]

text \<open>\<open>s.padStart(10, '0')\<close>.\<close>

definition padStart10 :: "jsstring \<Rightarrow> jsstring" where
  "padStart10 s = replicate (10 - length s) 0x30 @ s"

text \<open>\<open>xs.join(sep)\<close>.\<close>

fun join :: "jsstring \<Rightarrow> jsstring list \<Rightarrow> jsstring" where
  "join sep [] = []"
| "join sep [x] = x"
| "join sep (x # y # ys) = x @ sep @ join sep (y # ys)"

text \<open>\<open>s.split('\n')\<close>: always at least one piece.\<close>

fun split_lines :: "jsstring \<Rightarrow> jsstring list" where
  "split_lines [] = [[]]"
| "split_lines (c # cs) =
     (if c = LF then [] # split_lines cs
      else (case split_lines cs of
              [] \<Rightarrow> [[c]]
            | l # ls \<Rightarrow> (c # l) # ls))"

section \<open>The document synthesizer: generateInsightsPDF (webServer.ts)\<close>

definition pageHeight :: nat where "pageHeight = 792"
definition pageWidth :: nat where "pageWidth = 612"
definition marginTop :: nat where "marginTop = 50"
definition marginBottom :: nat where "marginBottom = 50"
definition marginLeft :: nat where "marginLeft = 50"
definition lineHeight :: nat where "lineHeight = 15"
definition maxCharsPerLine :: nat where "maxCharsPerLine = 85"

definition usableHeight :: nat where
  "usableHeight = pageHeight - marginTop - marginBottom"

definition maxLinesPerPage :: nat where
  "maxLinesPerPage = usableHeight div lineHeight"

definition linesPerPageWithHeader :: nat where
  "linesPerPageWithHeader = maxLinesPerPage - 4"

text \<open>\<open>s.replace(/[()\\]/g, '\\$&')\<close>: a backslash before every \<open>(\<close>, \<open>)\<close> and \<open>\\<close>.\<close>

definition isSpecial :: "jschar \<Rightarrow> bool" where
  "isSpecial c \<longleftrightarrow> c = 0x28 \<or> c = 0x29 \<or> c = 0x5C"

fun escapeSpecials :: "jsstring \<Rightarrow> jsstring" where
  "escapeSpecials [] = []"
| "escapeSpecials (c # cs) =
     (if isSpecial c then 0x5C # c # escapeSpecials cs else c # escapeSpecials cs)"

text \<open>
  The inner loop over a long escaped line:
  \<open>for (i = 0; i < escapedLine.length; i += maxCharsPerLine)
     push(escapedLine.substring(i, i + maxCharsPerLine))\<close>.
\<close>

function splitLong :: "nat \<Rightarrow> jsstring \<Rightarrow> jsstring list" where
  "splitLong i escapedLine =
     (if i < length escapedLine
      then take maxCharsPerLine (drop i escapedLine) # splitLong (i + maxCharsPerLine) escapedLine
      else [])"
  by pat_completeness auto
termination
  by (relation "measure (\<lambda>(i, s). length s - i)") (auto simp: maxCharsPerLine_def)

declare splitLong.simps [simp del]

text \<open>The body of the loop over \<open>rawLines\<close>: what one raw line adds to \<open>wrappedLines\<close>.\<close>

definition wrapLine :: "jsstring \<Rightarrow> jsstring list" where
  "wrapLine line =
     (let escapedLine = escapeSpecials line
      in if length escapedLine > maxCharsPerLine then splitLong 0 escapedLine
         else [escapedLine])"

definition wrappedLines :: "jsstring \<Rightarrow> jsstring list" where
  "wrappedLines insights = concat (map wrapLine (split_lines insights))"

definition title :: "jsstring \<Rightarrow> jsstring" where
  "title filename = ascii ''Data Science Analysis Report - '' @ filename"

text \<open>
  The content lines of one page: the first line of a later page is shown at the cursor,
  every other line after a vertical advance of \<open>-lineHeight\<close>.
\<close>

fun contentLines :: "bool \<Rightarrow> nat \<Rightarrow> jsstring list \<Rightarrow> jsstring" where
  "contentLines isFirstPage j [] = []"
| "contentLines isFirstPage j (l # ls) =
     (if j = 0 \<and> \<not> isFirstPage
      then ascii ''('' @ l @ ascii '') Tj'' @ [LF]
      else ascii ''0 -'' @ toString lineHeight @ ascii '' Td'' @ [LF]
           @ ascii ''('' @ l @ ascii '') Tj'' @ [LF])
     @ contentLines isFirstPage (j + 1) ls"

definition pageContent :: "jsstring \<Rightarrow> jsstring \<Rightarrow> bool \<Rightarrow> jsstring list \<Rightarrow> jsstring" where
  "pageContent timestamp filename isFirstPage pageLines =
     (let yPos = pageHeight - marginTop
      in ascii ''BT'' @ [LF]
         @ (if isFirstPage
            then ascii ''/F1 16 Tf'' @ [LF]
                 @ toString marginLeft @ ascii '' '' @ toString yPos @ ascii '' Td'' @ [LF]
                 @ ascii ''('' @ escapeSpecials (title filename) @ ascii '') Tj'' @ [LF]
                 @ ascii ''0 -30 Td'' @ [LF] @ ascii ''/F1 10 Tf'' @ [LF]
                 @ ascii ''(Generated: '' @ escapeSpecials timestamp @ ascii '') Tj'' @ [LF]
                 @ ascii ''0 -40 Td'' @ [LF] @ ascii ''/F1 11 Tf'' @ [LF]
            else ascii ''/F1 11 Tf'' @ [LF]
                 @ toString marginLeft @ ascii '' '' @ toString yPos @ ascii '' Td'' @ [LF])
         @ contentLines isFirstPage 0 pageLines
         @ ascii ''ET'' @ [LF])"

text \<open>
  The page loop:
  \<open>for (i = 0; i < wrappedLines.length; i += linesPerPageWithHeader)\<close>, each round
  taking \<open>wrappedLines.slice(i, i + linesPerPageWithHeader)\<close>.
\<close>

function pagesFrom :: "jsstring \<Rightarrow> jsstring \<Rightarrow> nat \<Rightarrow> jsstring list \<Rightarrow> jsstring list" where
  "pagesFrom timestamp filename i wrapped =
     (if i < length wrapped
      then pageContent timestamp filename (i = 0) (take linesPerPageWithHeader (drop i wrapped))
           # pagesFrom timestamp filename (i + linesPerPageWithHeader) wrapped
      else [])"
  by pat_completeness auto
termination
  by (relation "measure (\<lambda>(t, f, i, w). length w - i)")
     (auto simp: linesPerPageWithHeader_def maxLinesPerPage_def usableHeight_def
        pageHeight_def marginTop_def marginBottom_def lineHeight_def)

declare pagesFrom.simps [simp del]

definition pages :: "jsstring \<Rightarrow> jsstring \<Rightarrow> jsstring \<Rightarrow> jsstring list" where
  "pages timestamp insights filename = pagesFrom timestamp filename 0 (wrappedLines insights)"

definition pdfHeader :: jsstring where
  "pdfHeader = ascii ''%PDF-1.4'' @ [LF] @ [0x25, 0xE2, 0xE3, 0xCF, 0xD3] @ [LF]"

definition obj1 :: jsstring where
  "obj1 = ascii ''1 0 obj'' @ [LF] @ ascii ''<< /Type /Catalog /Pages 2 0 R >>'' @ [LF]
          @ ascii ''endobj'' @ [LF]"

definition pageRefs :: "nat \<Rightarrow> jsstring" where
  "pageRefs npages = join (ascii '' '') (map (\<lambda>idx. toString (3 + idx) @ ascii '' 0 R'') [0..<npages])"

definition obj2 :: "nat \<Rightarrow> jsstring" where
  "obj2 npages =
     ascii ''2 0 obj'' @ [LF]
     @ ascii ''<< /Type /Pages /Kids ['' @ pageRefs npages @ ascii ''] /Count ''
     @ toString npages @ ascii '' >>'' @ [LF]
     @ ascii ''endobj'' @ [LF]"

definition fontObjNum :: "nat \<Rightarrow> nat" where
  "fontObjNum npages = 3 + npages"

definition objFont :: "nat \<Rightarrow> jsstring" where
  "objFont npages =
     toString (fontObjNum npages) @ ascii '' 0 obj'' @ [LF]
     @ ascii ''<< /Font << /F1 << /Type /Font /Subtype /Type1 /BaseFont /Helvetica >> >> >>'' @ [LF]
     @ ascii ''endobj'' @ [LF]"

definition pageObj :: "nat \<Rightarrow> nat \<Rightarrow> jsstring" where
  "pageObj npages i =
     (let pageObjNum = 3 + i; contentObjNum = fontObjNum npages + 1 + i
      in toString pageObjNum @ ascii '' 0 obj'' @ [LF]
         @ ascii ''<< /Type /Page /Parent 2 0 R /Resources '' @ toString (fontObjNum npages)
         @ ascii '' 0 R /MediaBox [0 0 '' @ toString pageWidth @ ascii '' '' @ toString pageHeight
         @ ascii ''] /Contents '' @ toString contentObjNum @ ascii '' 0 R >>'' @ [LF]
         @ ascii ''endobj'' @ [LF])"

definition contentObj :: "nat \<Rightarrow> nat \<Rightarrow> jsstring \<Rightarrow> jsstring" where
  "contentObj npages i contentStream =
     (let contentObjNum = fontObjNum npages + 1 + i
      in toString contentObjNum @ ascii '' 0 obj'' @ [LF]
         @ ascii ''<< /Length '' @ toString (length contentStream) @ ascii '' >>'' @ [LF]
         @ ascii ''stream'' @ [LF]
         @ contentStream @ ascii ''endstream'' @ [LF]
         @ ascii ''endobj'' @ [LF])"

definition pageObjects :: "jsstring list \<Rightarrow> jsstring list" where
  "pageObjects ps = map (pageObj (length ps)) [0..<length ps]"

definition contentObjects :: "jsstring list \<Rightarrow> jsstring list" where
  "contentObjects ps = map (\<lambda>i. contentObj (length ps) i (ps ! i)) [0..<length ps]"

definition allObjects :: "jsstring list \<Rightarrow> jsstring list" where
  "allObjects ps =
     [obj1, obj2 (length ps)] @ pageObjects ps @ [objFont (length ps)] @ contentObjects ps"

definition pdfBody :: "jsstring list \<Rightarrow> jsstring" where
  "pdfBody ps =
     obj1 @ obj2 (length ps) @ concat (pageObjects ps) @ objFont (length ps)
     @ concat (contentObjects ps)"

text \<open>
  The offset loop: \<open>offsets = [0]\<close>, \<open>currentOffset = pdfHeader.length\<close>, then for every
  object \<open>offsets.push(currentOffset); currentOffset += object.length\<close>.
\<close>

fun offsetsFrom :: "nat \<Rightarrow> jsstring list \<Rightarrow> nat list" where
  "offsetsFrom currentOffset [] = []"
| "offsetsFrom currentOffset (obj # objs) =
     currentOffset # offsetsFrom (currentOffset + length obj) objs"

definition offsets :: "jsstring list \<Rightarrow> nat list" where
  "offsets ps = 0 # offsetsFrom (length pdfHeader) (allObjects ps)"

definition totalObjects :: "jsstring list \<Rightarrow> nat" where
  "totalObjects ps = length (offsets ps)"

definition xrefEntry :: "nat list \<Rightarrow> nat \<Rightarrow> jsstring" where
  "xrefEntry offs i =
     (if i = 0 then ascii ''0000000000 65535 f '' @ [LF]
      else padStart10 (toString (offs ! i)) @ ascii '' 00000 n '' @ [LF])"

definition xref :: "jsstring list \<Rightarrow> jsstring" where
  "xref ps =
     ascii ''xref'' @ [LF] @ ascii ''0 '' @ toString (totalObjects ps) @ [LF]
     @ concat (map (xrefEntry (offsets ps)) [0..<totalObjects ps])"

definition xrefStart :: "jsstring list \<Rightarrow> nat" where
  "xrefStart ps = length pdfHeader + length (pdfBody ps)"

definition trailer :: "jsstring list \<Rightarrow> jsstring" where
  "trailer ps =
     ascii ''trailer'' @ [LF]
     @ ascii ''<< /Size '' @ toString (totalObjects ps) @ ascii '' /Root 1 0 R >>'' @ [LF]
     @ ascii ''startxref'' @ [LF]
     @ toString (xrefStart ps) @ [LF]
     @ ascii ''%%EOF'' @ [LF]"

definition fullPDF :: "jsstring list \<Rightarrow> jsstring" where
  "fullPDF ps = pdfHeader @ pdfBody ps @ xref ps @ trailer ps"

text \<open>
  The whole function. \<open>timestamp\<close> is what \<open>new Date().toLocaleString()\<close> returned,
  the only thing the function reads besides its two arguments.
\<close>

definition generateInsightsPDF :: "jsstring \<Rightarrow> jsstring \<Rightarrow> jsstring \<Rightarrow> byte list" where
  "generateInsightsPDF timestamp insights filename =
     encode (fullPDF (pages timestamp insights filename))"

section \<open>JavaScript numbers\<close>

text \<open>
  A number is a rational (the value of a finite binary64 number) or one of the three values
  that are not finite. The operations below give the exact result; \<open>binary64\<close> rounds
  it to the nearest binary64 value, ties to even, with gradual underflow and overflow to
  an infinity, as every arithmetic operation of the language does. The sign of zero is
  not modelled. \<open>undefined\<close> is \<open>None\<close> of an option type; in arithmetic it converts
  to \<open>NaN\<close>.
\<close>

datatype jsnum = Num rat | NaN | PosInfinity | NegInfinity

fun num :: "jsnum option \<Rightarrow> jsnum" where
  "num None = NaN"
| "num (Some v) = v"

fun jsneg :: "jsnum \<Rightarrow> jsnum" where
  "jsneg (Num a) = Num (- a)"
| "jsneg NaN = NaN"
| "jsneg PosInfinity = NegInfinity"
| "jsneg NegInfinity = PosInfinity"

fun jsadd :: "jsnum \<Rightarrow> jsnum \<Rightarrow> jsnum" where
  "jsadd (Num a) (Num b) = Num (a + b)"
| "jsadd NaN y = NaN"
| "jsadd x NaN = NaN"
| "jsadd PosInfinity NegInfinity = NaN"
| "jsadd NegInfinity PosInfinity = NaN"
| "jsadd PosInfinity y = PosInfinity"
| "jsadd NegInfinity y = NegInfinity"
| "jsadd (Num a) y = y"

definition jssub :: "jsnum \<Rightarrow> jsnum \<Rightarrow> jsnum" where
  "jssub x y = jsadd x (jsneg y)"

definition infinityOfSign :: "rat \<Rightarrow> jsnum" where
  "infinityOfSign s = (if s = 0 then NaN else if 0 < s then PosInfinity else NegInfinity)"

fun jssign :: "jsnum \<Rightarrow> rat" where
  "jssign (Num a) = sgn a"
| "jssign PosInfinity = 1"
| "jssign NegInfinity = - 1"
| "jssign NaN = 0"

fun jsmul :: "jsnum \<Rightarrow> jsnum \<Rightarrow> jsnum" where
  "jsmul (Num a) (Num b) = Num (a * b)"
| "jsmul NaN y = NaN"
| "jsmul x NaN = NaN"
| "jsmul x y = infinityOfSign (jssign x * jssign y)"

fun jsdiv :: "jsnum \<Rightarrow> jsnum \<Rightarrow> jsnum" where
  "jsdiv (Num a) (Num b) = (if b = 0 then infinityOfSign a else Num (a / b))"
| "jsdiv NaN y = NaN"
| "jsdiv x NaN = NaN"
| "jsdiv (Num a) y = Num 0"
| "jsdiv x (Num b) = infinityOfSign (jssign x * (if b < 0 then - 1 else 1))"
| "jsdiv x y = NaN"

fun jslt :: "jsnum \<Rightarrow> jsnum \<Rightarrow> bool" where
  "jslt (Num a) (Num b) = (a < b)"
| "jslt NaN y = False"
| "jslt x NaN = False"
| "jslt x PosInfinity = (x \<noteq> PosInfinity)"
| "jslt NegInfinity y = (y \<noteq> NegInfinity)"
| "jslt x y = False"

text \<open>
  Rounding. \<open>bitlen n\<close> is the number of binary digits of \<open>n\<close>, \<open>pow2 k\<close> is
  \<open>2\<close> to the power \<open>k\<close>, and \<open>ilog2 x\<close> is, for positive \<open>x\<close>, the exponent
  \<open>e\<close> with \<open>2^e \<le> x < 2^(e+1)\<close>. A binary64 number with exponent \<open>e\<close> is a
  multiple of \<open>2^(e - 52)\<close>; below \<open>2^-1022\<close> the spacing stays \<open>2^-1074\<close>; a
  rounded magnitude of \<open>2^1024\<close> or more is an infinity.
\<close>

function bitlen :: "int \<Rightarrow> nat" where
  "bitlen n = (if n \<le> 0 then 0 else Suc (bitlen (n div 2)))"
  by pat_completeness auto
termination
  by (relation "measure nat") auto

declare bitlen.simps [simp del]

definition pow2 :: "int \<Rightarrow> rat" where
  "pow2 k = (if 0 \<le> k then 2 ^ nat k else 1 / 2 ^ nat (- k))"

definition ilog2 :: "rat \<Rightarrow> int" where
  "ilog2 x =
     (let d = int (bitlen (fst (quotient_of x))) - int (bitlen (snd (quotient_of x)))
      in if pow2 d \<le> x then d else d - 1)"

definition roundHalfEven :: "rat \<Rightarrow> int" where
  "roundHalfEven r =
     (let f = \<lfloor>r\<rfloor>; d = r - of_int f
      in if d < 1 / 2 then f
         else if 1 / 2 < d then f + 1
         else if even f then f else f + 1)"

definition roundBinary64 :: "rat \<Rightarrow> jsnum" where
  "roundBinary64 x =
     (if x = 0 then Num 0
      else
        (let e = max (ilog2 \<bar>x\<bar>) (- 1022);
             q = pow2 (e - 52);
             y = of_int (roundHalfEven (\<bar>x\<bar> / q)) * q
         in if pow2 1024 \<le> y then (if 0 < x then PosInfinity else NegInfinity)
            else Num (sgn x * y)))"

fun binary64 :: "jsnum \<Rightarrow> jsnum" where
  "binary64 (Num r) = roundBinary64 r"
| "binary64 NaN = NaN"
| "binary64 PosInfinity = PosInfinity"
| "binary64 NegInfinity = NegInfinity"

section \<open>The profiler: TableProcessor.generateInsights\<close>

text \<open>
  The function computes numbers and formats them into sentences. The model keeps the
  numbers: the completeness, for every header the analysis of its column in the order of
  the loop, and the duplicate count. Every array read is an option, and the calls that
  raise on \<open>undefined\<close> are an error result. Not modelled: the wording of the report and
  the recommendation lists drawn from these numbers, \<open>toLocaleString\<close> and \<open>toFixed\<close>,
  and the standard deviation with the skew derived from it (\<open>Math.sqrt\<close>).
  \<open>parseFloat\<close> is a parameter that yields the number a cell parses to, \<open>NaN\<close> and
  the infinities included. The statistics of a numeric column are computed in binary64,
  every operation rounded. The counts (\<open>n\<close>, lengths, \<open>rowCount\<close>) are natural
  numbers: the products \<open>n * 0.25\<close>, \<open>n * 0.75\<close> and \<open>length * 0.5\<close> are exact in
  binary64 for every array length, so their floors are taken on the exact values. The
  completeness quotient is kept unrounded.
\<close>

record TableData =
  headers :: "jsstring list"
  rows :: "jsstring list list"
  rowCount :: nat

datatype error = TypeError

text \<open>\<open>xs[i]\<close>: \<open>undefined\<close> outside the array.\<close>

definition elemAt :: "'a list \<Rightarrow> int \<Rightarrow> 'a option" where
  "elemAt xs i = (if 0 \<le> i \<and> i < int (length xs) then Some (xs ! nat i) else None)"

text \<open>\<open>xs.indexOf(x)\<close>: the first position of \<open>x\<close>, or \<open>-1\<close>.\<close>

fun indexOf :: "'a list \<Rightarrow> 'a \<Rightarrow> int" where
  "indexOf [] x = - 1"
| "indexOf (y # ys) x =
     (if y = x then 0 else (let r = indexOf ys x in if r < 0 then - 1 else r + 1))"

text \<open>\<open>s.trim()\<close> removes white space and line terminators at both ends.\<close>

definition isWhiteSpace :: "jschar \<Rightarrow> bool" where
  "isWhiteSpace c \<longleftrightarrow>
     c = 0x09 \<or> c = 0x0A \<or> c = 0x0B \<or> c = 0x0C \<or> c = 0x0D \<or> c = 0x20 \<or> c = 0xA0
     \<or> c = 0x1680 \<or> (0x2000 \<le> c \<and> c \<le> 0x200A) \<or> c = 0x2028 \<or> c = 0x2029
     \<or> c = 0x202F \<or> c = 0x205F \<or> c = 0x3000 \<or> c = 0xFEFF"

definition trim :: "jsstring \<Rightarrow> jsstring" where
  "trim s = rev (dropWhile isWhiteSpace (rev (dropWhile isWhiteSpace s)))"

definition totalCells :: "TableData \<Rightarrow> nat" where
  "totalCells data = rowCount data * length (headers data)"

text \<open>The test \<open>!cell || !cell.trim()\<close> of the completeness count.\<close>

definition isEmptyCell :: "jsstring \<Rightarrow> bool" where
  "isEmptyCell cell \<longleftrightarrow> cell = [] \<or> trim cell = []"

definition emptyCount :: "TableData \<Rightarrow> nat" where
  "emptyCount data =
     foldl (\<lambda>count row. count + length (filter isEmptyCell row)) 0 (rows data)"

definition completeness :: "TableData \<Rightarrow> jsnum" where
  "completeness data =
     jsmul (jsdiv (Num (of_int (int (totalCells data) - int (emptyCount data))))
                  (Num (of_nat (totalCells data))))
           (Num 100)"

text \<open>The test \<open>val && val.trim()\<close> of the column filter; \<open>val\<close> may be \<open>undefined\<close>.\<close>

fun isPopulated :: "jsstring option \<Rightarrow> bool" where
  "isPopulated None = False"
| "isPopulated (Some val) = (val \<noteq> [] \<and> trim val \<noteq> [])"

definition columnValues :: "TableData \<Rightarrow> jsstring \<Rightarrow> jsstring list" where
  "columnValues data header =
     (let colIndex = indexOf (headers data) header
      in concat (map (\<lambda>row. case elemAt row colIndex of
                                None \<Rightarrow> []
                              | Some val \<Rightarrow> if isPopulated (Some val) then [val] else [])
                     (rows data)))"

text \<open>
  \<open>values.map(v => parseFloat(v)).filter(v => !isNaN(v))\<close>: an infinity is not
  \<open>NaN\<close> and stays.
\<close>

definition numericValuesOf :: "(jsstring \<Rightarrow> jsnum) \<Rightarrow> jsstring list \<Rightarrow> jsnum list" where
  "numericValuesOf parseFloat values = filter (\<lambda>v. v \<noteq> NaN) (map parseFloat values)"

text \<open>
  \<open>[...numericValues].sort((a, b) => a - b)\<close>: ascending and stable. The sign of
  \<open>a - b\<close> is the sign of the exact difference, and the \<open>NaN\<close> of two equal
  infinities counts as zero, so the comparator orders the values as \<open>jslt\<close> does.
\<close>

fun insertAscending :: "jsnum \<Rightarrow> jsnum list \<Rightarrow> jsnum list" where
  "insertAscending v [] = [v]"
| "insertAscending v (w # ws) =
     (if jslt v w then v # w # ws else w # insertAscending v ws)"

definition sortAscending :: "jsnum list \<Rightarrow> jsnum list" where
  "sortAscending vs = foldl (\<lambda>sorted v. insertAscending v sorted) [] vs"

definition missingCount :: "TableData \<Rightarrow> jsstring \<Rightarrow> int" where
  "missingCount data header = int (rowCount data) - int (length (columnValues data header))"

record numericStats =
  n_val :: nat
  mean :: jsnum
  min_val :: "jsnum option"
  max_val :: "jsnum option"
  range_val :: jsnum
  median :: "jsnum option"
  q1 :: "jsnum option"
  q3 :: "jsnum option"
  iqr :: jsnum
  lowerBound :: jsnum
  upperBound :: jsnum
  outliers :: "jsnum list"

text \<open>
  The numeric branch, lines 313 to 340 of the source, without the standard deviation
  and the skew that is derived from it (\<open>Math.sqrt\<close>). The sentences that follow call
  \<open>toLocaleString\<close> on \<open>min\<close>, \<open>max\<close> and \<open>median\<close>, and on \<open>q1\<close> and \<open>q3\<close> when
  there are outliers: on \<open>undefined\<close> that call raises a TypeError.
\<close>

definition numericAnalysis :: "jsnum list \<Rightarrow> error + numericStats" where
  "numericAnalysis numericValues =
     (let n = length numericValues;
          sum = foldl (\<lambda>a b. binary64 (jsadd a b)) (Num 0) numericValues;
          mean = binary64 (jsdiv sum (Num (of_nat n)));
          sorted = sortAscending numericValues;
          min = elemAt sorted 0;
          max = elemAt sorted (int (length sorted) - 1);
          range = binary64 (jssub (num max) (num min));
          median = (if length sorted mod 2 = 0
                    then Some (binary64 (jsdiv
                           (binary64 (jsadd (num (elemAt sorted (int (length sorted div 2) - 1)))
                                            (num (elemAt sorted (int (length sorted div 2))))))
                           (Num 2)))
                    else elemAt sorted \<lfloor>(of_nat (length sorted) :: rat) / 2\<rfloor>);
          q1Index = \<lfloor>(of_nat n :: rat) * 0.25\<rfloor>;
          q3Index = \<lfloor>(of_nat n :: rat) * 0.75\<rfloor>;
          q1 = elemAt sorted q1Index;
          q3 = elemAt sorted q3Index;
          iqr = binary64 (jssub (num q3) (num q1));
          lowerBound = binary64 (jssub (num q1) (binary64 (jsmul (Num 1.5) iqr)));
          upperBound = binary64 (jsadd (num q3) (binary64 (jsmul (Num 1.5) iqr)));
          outliers = filter (\<lambda>v. jslt v lowerBound \<or> jslt upperBound v) numericValues
      in if min = None \<or> max = None \<or> median = None then Inl TypeError
         else if outliers \<noteq> [] \<and> (q1 = None \<or> q3 = None) then Inl TypeError
         else Inr \<lparr>n_val = n, mean = mean, min_val = min, max_val = max, range_val = range,
                   median = median,
                   q1 = q1, q3 = q3, iqr = iqr, lowerBound = lowerBound,
                   upperBound = upperBound, outliers = outliers\<rparr>)"

text \<open>
  The categorical branch: \<open>frequency\<close> is a \<open>Map\<close>, which keeps its keys in the order
  of their first insertion; \<open>topValues\<close> are the five entries of highest count (the
  sort is stable).
\<close>

fun frequencySet :: "(jsstring \<times> nat) list \<Rightarrow> jsstring \<Rightarrow> (jsstring \<times> nat) list" where
  "frequencySet [] val = [(val, 1)]"
| "frequencySet ((k, c) # m) val =
     (if k = val then (k, c + 1) # m else (k, c) # frequencySet m val)"

definition frequency :: "jsstring list \<Rightarrow> (jsstring \<times> nat) list" where
  "frequency values = foldl frequencySet [] values"

definition topValues :: "jsstring list \<Rightarrow> (jsstring \<times> nat) list" where
  "topValues values = take 5 (sort_key (\<lambda>e. - int (snd e)) (frequency values))"

record categoricalStats =
  cardinality :: nat
  top :: "(jsstring \<times> nat) list"

datatype variableAnalysis =
    NoPopulatedValues
  | NumericVariable numericStats int
  | CategoricalVariable categoricalStats int

text \<open>One round of the loop over \<open>data.headers\<close>.\<close>

definition analyzeVariable ::
  "(jsstring \<Rightarrow> jsnum) \<Rightarrow> TableData \<Rightarrow> jsstring \<Rightarrow> error + variableAnalysis" where
  "analyzeVariable parseFloat data header =
     (let values = columnValues data header
      in if length values = 0 then Inr NoPopulatedValues
         else
           (let uniqueValues = remdups values;
                numericValues = numericValuesOf parseFloat values;
                isNumeric = ((of_nat (length numericValues) :: rat) > of_nat (length values) * 0.5);
                missing = missingCount data header
            in if isNumeric
               then (case numericAnalysis numericValues of
                       Inl e \<Rightarrow> Inl e
                     | Inr stats \<Rightarrow> Inr (NumericVariable stats missing))
               else Inr (CategoricalVariable
                           \<lparr>cardinality = length uniqueValues, top = topValues values\<rparr>
                           missing)))"

fun analyzeVariables ::
  "(jsstring \<Rightarrow> jsnum) \<Rightarrow> TableData \<Rightarrow> jsstring list
   \<Rightarrow> error + (jsstring \<times> variableAnalysis) list" where
  "analyzeVariables parseFloat data [] = Inr []"
| "analyzeVariables parseFloat data (header # hs) =
     (case analyzeVariable parseFloat data header of
        Inl e \<Rightarrow> Inl e
      | Inr v \<Rightarrow>
          (case analyzeVariables parseFloat data hs of
             Inl e \<Rightarrow> Inl e
           | Inr vs \<Rightarrow> Inr ((header, v) # vs)))"

text \<open>\<open>rowStrings\<close>, \<open>uniqueRows\<close> and \<open>duplicates\<close>.\<close>

definition rowStrings :: "TableData \<Rightarrow> jsstring list" where
  "rowStrings data = map (join (ascii ''|'')) (rows data)"

definition duplicates :: "TableData \<Rightarrow> int" where
  "duplicates data = int (rowCount data) - int (length (remdups (rowStrings data)))"

record insightsReport =
  reportCompleteness :: jsnum
  reportVariables :: "(jsstring \<times> variableAnalysis) list"
  reportDuplicates :: int

definition generateInsights ::
  "(jsstring \<Rightarrow> jsnum) \<Rightarrow> TableData \<Rightarrow> error + insightsReport" where
  "generateInsights parseFloat data =
     (case analyzeVariables parseFloat data (headers data) of
        Inl e \<Rightarrow> Inl e
      | Inr vs \<Rightarrow>
          Inr \<lparr>reportCompleteness = completeness data, reportVariables = vs,
               reportDuplicates = duplicates data\<rparr>)"

section \<open>Predicates on the synthesizer's text\<close>

text \<open>
  The contents of a literal string \<open>( ... )\<close> of a content stream, read by the rules
  of the format: a backslash takes the next character with it. The contents are well
  escaped when no parenthesis stands without a backslash and no backslash is left at the
  end, where it would take the closing parenthesis of the literal.
\<close>

fun wellEscaped :: "jsstring \<Rightarrow> bool" where
  "wellEscaped [] = True"
| "wellEscaped [c] = (\<not> isSpecial c)"
| "wellEscaped (c # d # cs) =
     (if c = 0x5C then wellEscaped cs else \<not> isSpecial c \<and> wellEscaped (d # cs))"

text \<open>
  Words of a line are its maximal runs of code units other than the space;
  \<open>longestWord 0 line\<close> is the length of the longest one. A list of wrapped lines
  breaks at whitespace when at every break the piece before ends with a space or the piece
  after begins with one, so that no word continues across the break.
\<close>

fun longestWord :: "nat \<Rightarrow> jsstring \<Rightarrow> nat" where
  "longestWord cur [] = cur"
| "longestWord cur (c # cs) =
     (if c = 0x20 then max cur (longestWord 0 cs) else longestWord (cur + 1) cs)"

definition endsWithSpace :: "jsstring \<Rightarrow> bool" where
  "endsWithSpace x \<longleftrightarrow> x \<noteq> [] \<and> last x = 0x20"

definition startsWithSpace :: "jsstring \<Rightarrow> bool" where
  "startsWithSpace y \<longleftrightarrow> y \<noteq> [] \<and> hd y = 0x20"

fun breaksAtWhitespace :: "jsstring list \<Rightarrow> bool" where
  "breaksAtWhitespace [] = True"
| "breaksAtWhitespace [x] = True"
| "breaksAtWhitespace (x # y # ys) =
     ((endsWithSpace x \<or> startsWithSpace y) \<and> breaksAtWhitespace (y # ys))"

section \<open>The quartile rule in the words of the specification\<close>







section \<open>Byte encoding of the fixed prefix\<close>

lemma encode_Cons:
  "\<not> isHighSurrogate c \<Longrightarrow> \<not> isLowSurrogate c \<Longrightarrow>
   encode (c # cs) = utf8_codepoint (unat c) @ encode cs"
  by (cases cs) auto

lemma pdfHeader_units:
  "pdfHeader = [0x25,0x50,0x44,0x46,0x2D,0x31,0x2E,0x34,0x0A,0x25,0xE2,0xE3,0xCF,0xD3,0x0A]"
  by (simp add: pdfHeader_def ascii_def LF_def)

lemma length_pdfHeader: "length pdfHeader = 15"
  by (simp add: pdfHeader_units)

lemma obj_decl_units: "ascii ''1 0 obj'' = [0x31,0x20,0x30,0x20,0x6F,0x62,0x6A]"
  by (simp add: ascii_def)

lemma encode_header_obj:
  "encode (pdfHeader @ ascii ''1 0 obj'' @ rest) =
     [0x25,0x50,0x44,0x46,0x2D,0x31,0x2E,0x34,0x0A,0x25,0xC3,0xA2,0xC3,0xA3,0xC3,0x8F,0xC3,0x93,0x0A,
      0x31,0x20,0x30,0x20,0x6F,0x62,0x6A] @ encode rest"
  by (simp add: pdfHeader_units obj_decl_units encode_Cons isHighSurrogate_def
        isLowSurrogate_def utf8_codepoint_def)

lemma encode_obj_decl: "encode (ascii ''1 0 obj'') = [0x31,0x20,0x30,0x20,0x6F,0x62,0x6A]"
  by (simp add: obj_decl_units encode_Cons isHighSurrogate_def isLowSurrogate_def
        utf8_codepoint_def)

lemma fullPDF_starts: "\<exists>rest. fullPDF ps = pdfHeader @ ascii ''1 0 obj'' @ rest"
  by (simp add: fullPDF_def pdfBody_def obj1_def)

lemma offsets_1: "offsets ps ! Suc 0 = 15"
  by (simp add: offsets_def allObjects_def length_pdfHeader)

lemma toString_15: "toString 15 = [0x31, 0x35]"
  by (simp add: toString.simps)

lemma replicate_8: "replicate 8 x = [x, x, x, x, x, x, x, x]"
  by (simp add: eval_nat_numeral)

lemma xrefEntry_1: "xrefEntry (offsets ps) (Suc 0) = ascii ''0000000015 00000 n '' @ [LF]"
  by (simp add: xrefEntry_def offsets_1 toString_15 padStart10_def ascii_def replicate_8)

section \<open>Cross-reference offsets against the encoded bytes\<close>

text \<open>
  Claim C1 asks that the offset the cross-reference table states for an object is the byte
  position of that object's \<open>obj\<close> declaration in the encoded stream. The code
  counts UTF-16 code units: \<open>pdfHeader.length\<close> is 15, while the header's four
  non-ASCII characters take two bytes each, so the header is 19 bytes long. For every
  timestamp, body and file name, the table states offset 15 for object 1 (the catalog,
  which the trailer names as \<open>/Root\<close>), the declaration \<open>1 0 obj\<close> begins at
  byte 19, and the seven bytes at position 15 are not that declaration.
\<close>

theorem xref_offset_of_root_is_not_byte_position:
  "offsets (pages timestamp insights filename) ! 1 = 15
   \<and> xrefEntry (offsets (pages timestamp insights filename)) 1
       = ascii ''0000000015 00000 n '' @ [LF]
   \<and> take 7 (drop 19 (generateInsightsPDF timestamp insights filename))
       = encode (ascii ''1 0 obj'')
   \<and> take 7 (drop 15 (generateInsightsPDF timestamp insights filename))
       \<noteq> encode (ascii ''1 0 obj'')"
proof -
  obtain rest where r:
    "fullPDF (pages timestamp insights filename) = pdfHeader @ ascii ''1 0 obj'' @ rest"
    using fullPDF_starts by blast
  show ?thesis
    by (simp add: offsets_1 xrefEntry_1 generateInsightsPDF_def r encode_header_obj
          encode_obj_decl)
qed

section \<open>What the offsets measure\<close>

text \<open>
  Counted in UTF-16 code units of the string before it is encoded, every offset of the
  table is the position at which its object begins, and \<open>xrefStart\<close> is the position
  of the table.
\<close>

lemma offsetsFrom_nth:
  "k < length objs \<Longrightarrow> offsetsFrom c objs ! k = c + length (concat (take k objs))"
proof (induction objs arbitrary: c k)
  case Nil
  then show ?case by simp
next
  case (Cons obj objs)
  then show ?case by (cases k) simp_all
qed

lemma pdfBody_concat: "pdfBody ps = concat (allObjects ps)"
  by (simp add: pdfBody_def allObjects_def)

lemma offsets_in_code_units:
  assumes "k < length (allObjects ps)"
  shows "drop (offsets ps ! Suc k) (fullPDF ps)
       = concat (drop k (allObjects ps)) @ xref ps @ trailer ps"
proof -
  have o: "offsets ps ! Suc k = length (pdfHeader @ concat (take k (allObjects ps)))"
    using assms by (simp add: offsets_def offsetsFrom_nth)
  have f: "fullPDF ps = (pdfHeader @ concat (take k (allObjects ps)))
      @ (concat (drop k (allObjects ps)) @ xref ps @ trailer ps)"
    using append_take_drop_id [of k "allObjects ps"]
    by (simp add: fullPDF_def pdfBody_concat flip: concat_append)
  show ?thesis
    by (subst f, subst o) (rule append_eq_conv_conj [THEN iffD1, THEN conjunct2, symmetric], rule refl)
qed

lemma xrefStart_in_code_units: "drop (xrefStart ps) (fullPDF ps) = xref ps @ trailer ps"
  by (simp add: xrefStart_def fullPDF_def)

section \<open>Pagination\<close>

lemma linesPerPageWithHeader_42: "linesPerPageWithHeader = 42"
  by (simp add: linesPerPageWithHeader_def maxLinesPerPage_def usableHeight_def
        pageHeight_def marginTop_def marginBottom_def lineHeight_def)

lemma page_step: "i < n \<Longrightarrow> Suc ((n - (i + 42) + 41) div 42) = (n - i + 41) div 42"
proof (cases "i + 42 \<le> n")
  case True
  then have e: "n - i + 41 = (n - (i + 42) + 41) + 42"
    by simp
  show ?thesis
    by (subst e) simp
next
  case False
  assume "i < n"
  with False have "n - (i + 42) = 0" and "42 \<le> n - i + 41" and "n - i + 41 < 84"
    by simp_all
  then show ?thesis
    by (simp add: div_nat_eqI)
qed

lemma length_pagesFrom:
  "length (pagesFrom ts fn i w) = (length w - i + 41) div 42"
proof (induction ts fn i w rule: pagesFrom.induct)
  case (1 ts fn i w)
  show ?case
  proof (cases "i < length w")
    case True
    then have "length (pagesFrom ts fn i w) = Suc ((length w - (i + 42) + 41) div 42)"
      using 1 by (subst pagesFrom.simps) (simp add: linesPerPageWithHeader_42)
    then show ?thesis
      using True by (simp only: page_step)
  next
    case False
    then show ?thesis by (subst pagesFrom.simps) simp
  qed
qed

lemma split_lines_nonempty: "split_lines s \<noteq> []"
  by (induction s) (auto split: list.splits)

lemma splitLong_nonempty: "i < length s \<Longrightarrow> splitLong i s \<noteq> []"
  by (subst splitLong.simps) simp

lemma wrapLine_nonempty: "wrapLine l \<noteq> []"
  by (auto simp: wrapLine_def Let_def maxCharsPerLine_def intro!: splitLong_nonempty)

lemma wrappedLines_nonempty: "wrappedLines ins \<noteq> []"
proof -
  obtain l ls where "split_lines ins = l # ls"
    using split_lines_nonempty by (cases "split_lines ins") auto
  then show ?thesis
    by (simp add: wrappedLines_def wrapLine_nonempty)
qed

lemma length_pages: "length (pages ts ins fn) = (length (wrappedLines ins) + 41) div 42"
  by (simp add: pages_def length_pagesFrom)

lemma ceiling_div: "nat \<lceil>real n / real 42\<rceil> = (n + 41) div 42"
proof -
  define a where "a = (n + 41) div 42"
  define r where "r = (n + 41) mod 42"
  have "n + 41 = 42 * a + r" and "r < 42"
    by (simp_all add: a_def r_def)
  then have "n \<le> 42 * a" and "42 * a < n + 42"
    by linarith+
  then have "real n \<le> 42 * real a" and "42 * real a < real n + 42"
    by (metis of_nat_le_iff of_nat_mult of_nat_numeral, metis of_nat_less_iff of_nat_mult of_nat_add of_nat_numeral)
  then have "real_of_int (int a) - 1 < real n / real 42" and "real n / real 42 \<le> real_of_int (int a)"
    by (simp_all add: field_simps)
  then have "\<lceil>real n / real 42\<rceil> = int a"
    by (rule ceiling_unique)
  then show ?thesis
    by (simp add: a_def)
qed

lemma wrappedLines_empty: "wrappedLines [] = [[]]"
  by (simp add: wrappedLines_def wrapLine_def maxCharsPerLine_def)

lemma split_lines_LFs: "split_lines (replicate k LF) = replicate (Suc k) []"
  by (induction k) simp_all

lemma wrappedLines_LFs: "wrappedLines (replicate k LF) = replicate (Suc k) []"
  by (simp add: wrappedLines_def split_lines_LFs wrapLine_def maxCharsPerLine_def del: replicate_Suc)

text \<open>
  Claim C2: the number of page objects is \<open>ceil(wrapped lines / linesPerPageWithHeader)\<close>
  and at least 1; an empty body gives one page; a body of
  \<open>linesPerPageWithHeader - 1\<close> wrapped lines gives one page and a body of
  \<open>linesPerPageWithHeader + 1\<close> wrapped lines gives two.
\<close>

theorem page_count:
  "length (pageObjects (pages ts ins fn)) =
     max 1 (nat \<lceil>real (length (wrappedLines ins)) / real linesPerPageWithHeader\<rceil>)
   \<and> length (pageObjects (pages ts [] fn)) = 1
   \<and> (length (wrappedLines ins) = linesPerPageWithHeader - 1 \<longrightarrow>
        length (pageObjects (pages ts ins fn)) = 1)
   \<and> (length (wrappedLines ins) = linesPerPageWithHeader + 1 \<longrightarrow>
        length (pageObjects (pages ts ins fn)) = 2)"
proof (intro conjI impI)
  have n: "length (pageObjects (pages ts body fn)) = (length (wrappedLines body) + 41) div 42"
    for body
    by (simp add: pageObjects_def length_pages)
  have "0 < length (wrappedLines ins)"
    using wrappedLines_nonempty by simp
  then have "1 \<le> (length (wrappedLines ins) + 41) div 42"
    by (simp add: Suc_le_eq div_greater_zero_iff)
  then have "(length (wrappedLines ins) + 41) div 42 =
      max 1 (nat \<lceil>real (length (wrappedLines ins)) / real 42\<rceil>)"
    by (simp only: ceiling_div max_def if_True)
  then show "length (pageObjects (pages ts ins fn)) =
     max 1 (nat \<lceil>real (length (wrappedLines ins)) / real linesPerPageWithHeader\<rceil>)"
    by (simp only: n linesPerPageWithHeader_42)
  show "length (pageObjects (pages ts [] fn)) = 1"
    by (simp add: n wrappedLines_empty)
  show "length (pageObjects (pages ts ins fn)) = 1"
    if "length (wrappedLines ins) = linesPerPageWithHeader - 1"
    using that by (simp add: n linesPerPageWithHeader_42)
  show "length (pageObjects (pages ts ins fn)) = 2"
    if "length (wrappedLines ins) = linesPerPageWithHeader + 1"
    using that by (simp add: n linesPerPageWithHeader_42)
qed

theorem page_count_witness:
  "length (wrappedLines (replicate 40 LF)) = linesPerPageWithHeader - 1
   \<and> length (pageObjects (pages [] (replicate 40 LF) [])) = 1
   \<and> length (wrappedLines (replicate 42 LF)) = linesPerPageWithHeader + 1
   \<and> length (pageObjects (pages [] (replicate 42 LF) [])) = 2"
proof -
  have h1: "length (wrappedLines (replicate 40 LF)) = linesPerPageWithHeader - 1"
    by (simp only: wrappedLines_LFs length_replicate linesPerPageWithHeader_42)
  have h2: "length (wrappedLines (replicate 42 LF)) = linesPerPageWithHeader + 1"
    by (simp only: wrappedLines_LFs length_replicate linesPerPageWithHeader_42)
  from page_count [of "[]" "replicate 40 LF" "[]"] h1
  have c1: "length (pageObjects (pages [] (replicate 40 LF) [])) = 1"
    by blast
  from page_count [of "[]" "replicate 42 LF" "[]"] h2
  have c2: "length (pageObjects (pages [] (replicate 42 LF) [])) = 2"
    by blast
  from h1 c1 h2 c2 show ?thesis by blast
qed

section \<open>Escaping\<close>

lemma wellEscaped_plain: "\<not> isSpecial a \<Longrightarrow> wellEscaped (a # s) = wellEscaped s"
  by (cases s) (auto simp: isSpecial_def)

lemma wellEscaped_escapeSpecials: "wellEscaped (escapeSpecials s)"
  by (induction s) (simp_all add: wellEscaped_plain)

lemma wellEscaped_replicate:
  "\<not> isSpecial a \<Longrightarrow> wellEscaped (replicate n a @ s) = wellEscaped s"
  by (induction n) (simp_all add: wellEscaped_plain)

lemma escapeSpecials_replicate:
  "\<not> isSpecial a \<Longrightarrow> escapeSpecials (replicate n a @ s) = replicate n a @ escapeSpecials s"
  by (induction n) simp_all

lemma split_lines_no_LF: "LF \<notin> set s \<Longrightarrow> split_lines s = [s]"
  by (induction s) auto

lemma splitLong_two:
  "length s = 86 \<Longrightarrow> splitLong 0 s = [take 85 s, drop 85 s]"
  by (simp add: splitLong.simps maxCharsPerLine_def)

lemma wrapLine_84_paren:
  "wrapLine (replicate 84 0x61 @ [0x28]) = [replicate 84 0x61 @ [0x5C], [0x28]]"
  by (simp add: wrapLine_def escapeSpecials_replicate isSpecial_def maxCharsPerLine_def
        splitLong_two)

text \<open>
  Claim C3 asks that no input text leaves an unescaped or unbalanced structural character
  inside a literal of a content stream. Title, timestamp and every line of at most 85
  escaped code units are well escaped (\<open>wellEscaped_escapeSpecials\<close>), but a long
  line is cut after it was escaped. For the body of 84 letters \<open>a\<close> followed by
  \<open>(\<close> the cut falls between the backslash and the parenthesis: the first literal
  ends with a lone backslash, which takes its closing parenthesis, and the second literal
  holds a bare \<open>(\<close>.
\<close>

theorem escape_before_split_breaks_literal:
  "wrappedLines (replicate 84 0x61 @ [0x28]) = [replicate 84 0x61 @ [0x5C], [0x28]]
   \<and> \<not> wellEscaped (replicate 84 0x61 @ [0x5C])
   \<and> \<not> wellEscaped [0x28]
   \<and> contentLines True 0 (wrappedLines (replicate 84 0x61 @ [0x28])) =
       ascii ''0 -15 Td'' @ [LF] @ ascii ''('' @ replicate 84 0x61 @ [0x5C] @ ascii '') Tj'' @ [LF]
       @ ascii ''0 -15 Td'' @ [LF] @ ascii ''(() Tj'' @ [LF]"
proof -
  have w: "wrappedLines (replicate 84 0x61 @ [0x28]) = [replicate 84 0x61 @ [0x5C], [0x28]]"
    by (simp add: wrappedLines_def split_lines_no_LF LF_def wrapLine_84_paren)
  have t: "toString lineHeight = ascii ''15''"
    by (simp add: lineHeight_def toString.simps ascii_def)
  show ?thesis
    by (simp add: w wellEscaped_replicate isSpecial_def t) (simp add: ascii_def)
qed

section \<open>Line wrapping\<close>

lemma splitLong_91:
  "length s = 91 \<Longrightarrow> splitLong 0 s = [take 85 s, drop 85 s]"
  by (simp add: splitLong.simps maxCharsPerLine_def)

lemma longestWord_replicate:
  "a \<noteq> 0x20 \<Longrightarrow> longestWord cur (replicate n a @ s) = longestWord (cur + n) s"
  by (induction n arbitrary: cur) simp_all

text \<open>
  Claim C4 asks that no word is split across two wrapped lines when the line can be
  wrapped at whitespace. The loop of \<open>generateInsightsPDF\<close> takes
  \<open>substring(i, i + maxCharsPerLine)\<close> for \<open>i = 0, 85, ...\<close> and never looks for
  a space. The line of 80 letters \<open>a\<close>, a space and 10 letters \<open>b\<close> has no
  word longer than the width and could be wrapped at its space, and yet the word of
  letters \<open>b\<close> is cut after its fourth letter.
\<close>

theorem wrapLine_splits_short_word:
  "longestWord 0 (replicate 80 0x61 @ [0x20] @ replicate 10 0x62) \<le> maxCharsPerLine
   \<and> wrapLine (replicate 80 0x61 @ [0x20] @ replicate 10 0x62) =
       [replicate 80 0x61 @ [0x20] @ replicate 4 0x62, replicate 6 0x62]
   \<and> \<not> breaksAtWhitespace (wrapLine (replicate 80 0x61 @ [0x20] @ replicate 10 0x62))"
proof -
  define L :: jsstring where "L = replicate 80 0x61 @ [0x20] @ replicate 10 0x62"
  have l: "longestWord 0 L = 80"
    using longestWord_replicate [of "0x61" 0 80 "[0x20] @ replicate 10 0x62"]
      longestWord_replicate [of "0x62" 0 10 "[]"]
    by (simp add: L_def)
  have e: "escapeSpecials L = L"
    using escapeSpecials_replicate [of "0x61" 80 "[0x20] @ replicate 10 0x62"]
      escapeSpecials_replicate [of "0x62" 10 "[]"]
    by (simp add: isSpecial_def L_def)
  have n: "length L = 91"
    by (simp add: L_def)
  have t: "take 85 L = replicate 80 0x61 @ [0x20] @ replicate 4 0x62"
    by (simp add: L_def)
  have d: "drop 85 L = replicate 6 0x62"
    by (simp add: L_def)
  have w: "wrapLine L = [replicate 80 0x61 @ [0x20] @ replicate 4 0x62, replicate 6 0x62]"
    by (simp only: wrapLine_def e Let_def n maxCharsPerLine_def splitLong_91 t d) simp
  have b: "\<not> breaksAtWhitespace
      [replicate 80 0x61 @ [0x20] @ replicate 4 0x62, replicate 6 (0x62 :: jschar)]"
    by (simp add: endsWithSpace_def startsWithSpace_def)
  have "longestWord 0 L \<le> maxCharsPerLine"
    by (simp add: l maxCharsPerLine_def)
  then show ?thesis
    using w b by (simp only: L_def [symmetric]) simp
qed

section \<open>Rounding to binary64\<close>

lemma bitlen_pos: "0 < k \<Longrightarrow> 0 < bitlen k"
  by (subst bitlen.simps) simp

lemma bitlen_bounds: "0 < k \<Longrightarrow> 2 ^ (bitlen k - 1) \<le> k \<and> k < 2 ^ bitlen k"
proof (induction k rule: bitlen.induct)
  case (1 n)
  show ?case
  proof (cases "n = 1")
    case True
    then show ?thesis
      by (simp add: bitlen.simps [of 1] bitlen.simps [of 0])
  next
    case False
    with "1.prems" have h: "0 < n div 2"
      by simp
    with "1.prems" "1.IH" have ih: "2 ^ (bitlen (n div 2) - 1) \<le> n div 2"
      "n div 2 < 2 ^ bitlen (n div 2)"
      by simp_all
    have b: "bitlen n = Suc (bitlen (n div 2))"
      using "1.prems" by (subst bitlen.simps) simp
    obtain c where c: "bitlen (n div 2) = Suc c"
      using bitlen_pos [OF h] by (cases "bitlen (n div 2)") auto
    from ih have "2 * 2 ^ c \<le> 2 * (n div 2)" and "2 * (n div 2) + 2 \<le> 2 * 2 ^ Suc c"
      by (simp_all add: c)
    moreover have "2 * (n div 2) \<le> n" and "n < 2 * (n div 2) + 2"
      by simp_all
    ultimately show ?thesis
      by (simp add: b c)
  qed
qed





text \<open>
  For a number of exponent \<open>e\<close>, rounding is rounding to a multiple of
  \<open>2^(e - 52)\<close>: this is how the examples below are evaluated. The decimal
  \<open>0.1\<close> is not a binary64 number, and \<open>2.7\<close> and \<open>2.6\<close> are read
  as their nearest binary64 neighbours.
\<close>

lemma pow2_powi: "pow2 k = 2 powi k"
  by (simp add: pow2_def power_int_def power_one_over inverse_eq_divide)

lemma pow2_pos: "0 < pow2 k"
  by (simp add: pow2_def)

lemma pow2_add: "pow2 (a + b) = pow2 a * pow2 b"
  by (simp add: pow2_powi power_int_add)

lemma pow2_less: "a < b \<Longrightarrow> pow2 a < pow2 b"
  by (simp add: pow2_powi power_int_strict_increasing)

lemma pow2_nat: "pow2 (int n) = 2 ^ n"
  by (simp add: pow2_def)

lemma ilog2_bounds:
  assumes "0 < x"
  shows "pow2 (ilog2 x) \<le> x \<and> x < pow2 (ilog2 x + 1)"
proof -
  obtain p q where pq: "quotient_of x = (p, q)"
    by (cases "quotient_of x") auto
  then have q: "0 < q" and x: "x = of_int p / of_int q"
    by (simp_all add: quotient_of_denom_pos quotient_of_div)
  from assms q x have p: "0 < p"
    by (simp add: zero_less_divide_iff)
  define bp where "bp = bitlen p"
  define bq where "bq = bitlen q"
  define d where "d = int bp - int bq"
  from bitlen_bounds [OF p] have p1: "(2 :: int) ^ (bp - 1) \<le> p" and p2: "p < 2 ^ bp"
    by (simp_all add: bp_def)
  from bitlen_bounds [OF q] have q1: "(2 :: int) ^ (bq - 1) \<le> q" and q2: "q < 2 ^ bq"
    by (simp_all add: bq_def)
  have bpp: "0 < bp" and bqp: "0 < bq"
    using bitlen_pos [OF p] bitlen_pos [OF q] by (simp_all add: bp_def bq_def)
  have P1: "pow2 (int bp - 1) \<le> of_int p"
  proof -
    have a: "(of_int ((2 :: int) ^ (bp - 1)) :: rat) \<le> of_int p"
      using p1 by (simp only: of_int_le_iff)
    have e: "int bp - 1 = int (bp - 1)"
      using bpp by simp
    have "pow2 (int bp - 1) = 2 ^ (bp - 1)"
      by (simp only: e pow2_nat)
    with a show ?thesis
      by simp
  qed
  have P2: "of_int p < pow2 (int bp)"
  proof -
    have "(of_int p :: rat) < of_int ((2 :: int) ^ bp)"
      using p2 by (simp only: of_int_less_iff)
    then show ?thesis
      by (simp add: pow2_nat)
  qed
  have Q1: "pow2 (int bq - 1) \<le> of_int q"
  proof -
    have a: "(of_int ((2 :: int) ^ (bq - 1)) :: rat) \<le> of_int q"
      using q1 by (simp only: of_int_le_iff)
    have e: "int bq - 1 = int (bq - 1)"
      using bqp by simp
    have "pow2 (int bq - 1) = 2 ^ (bq - 1)"
      by (simp only: e pow2_nat)
    with a show ?thesis
      by simp
  qed
  have Q2: "of_int q < pow2 (int bq)"
  proof -
    have "(of_int q :: rat) < of_int ((2 :: int) ^ bq)"
      using q2 by (simp only: of_int_less_iff)
    then show ?thesis
      by (simp add: pow2_nat)
  qed
  have qr: "(0 :: rat) < of_int q"
    using q by simp
  have xq: "x * of_int q = of_int p"
    using qr by (simp add: x)
  have up: "x < pow2 (d + 1)"
  proof -
    have "x * of_int q < pow2 (int bp)"
      using P2 by (simp only: xq)
    also have "pow2 (int bp) = pow2 (d + 1) * pow2 (int bq - 1)"
      by (simp add: pow2_add [symmetric] d_def)
    also have "\<dots> \<le> pow2 (d + 1) * of_int q"
      using Q1 pow2_pos [of "d + 1"] by (simp only: mult_le_cancel_left_pos)
    finally show ?thesis
      using qr by (simp only: mult_less_cancel_right_pos)
  qed
  have lo: "pow2 (d - 1) < x"
  proof -
    have "pow2 (d - 1) * of_int q < pow2 (d - 1) * pow2 (int bq)"
      using Q2 pow2_pos [of "d - 1"] by (simp only: mult_less_cancel_left_pos)
    also have "\<dots> = pow2 (int bp - 1)"
      by (simp add: pow2_add [symmetric] d_def)
    also have "\<dots> \<le> x * of_int q"
      using P1 by (simp only: xq)
    finally show ?thesis
      using qr by (simp only: mult_less_cancel_right_pos)
  qed
  have il: "ilog2 x = (if pow2 d \<le> x then d else d - 1)"
    by (simp add: ilog2_def pq bp_def bq_def d_def Let_def)
  show ?thesis
  proof (cases "pow2 d \<le> x")
    case True
    with up show ?thesis
      by (simp add: il)
  next
    case False
    with lo show ?thesis
      by (simp add: il)
  qed
qed

lemma ilog2_unique:
  assumes "pow2 e \<le> x" and "x < pow2 (e + 1)"
  shows "ilog2 x = e"
proof -
  have "0 < x"
    using assms(1) pow2_pos [of e] by simp
  then have b: "pow2 (ilog2 x) \<le> x" "x < pow2 (ilog2 x + 1)"
    using ilog2_bounds by simp_all
  have "\<not> e + 1 \<le> ilog2 x"
  proof
    assume "e + 1 \<le> ilog2 x"
    then have "pow2 (e + 1) \<le> pow2 (ilog2 x)"
      using pow2_less [of "e + 1" "ilog2 x"] by (cases "e + 1 = ilog2 x") simp_all
    with b(1) assms(2) show False
      by simp
  qed
  moreover have "\<not> ilog2 x + 1 \<le> e"
  proof
    assume "ilog2 x + 1 \<le> e"
    then have "pow2 (ilog2 x + 1) \<le> pow2 e"
      using pow2_less [of "ilog2 x + 1" e] by (cases "ilog2 x + 1 = e") simp_all
    with b(2) assms(1) show False
      by simp
  qed
  ultimately show ?thesis
    by simp
qed

lemma roundBinary64_normal:
  assumes "pow2 e \<le> \<bar>x\<bar>" and "\<bar>x\<bar> < pow2 (e + 1)" and "- 1022 \<le> e"
  shows "roundBinary64 x =
     (let q = pow2 (e - 52); y = of_int (roundHalfEven (\<bar>x\<bar> / q)) * q
      in if pow2 1024 \<le> y then (if 0 < x then PosInfinity else NegInfinity)
         else Num (sgn x * y))"
proof -
  have "x \<noteq> 0"
    using assms(1) pow2_pos [of e] by auto
  moreover have "ilog2 \<bar>x\<bar> = e"
    using assms(1,2) by (rule ilog2_unique)
  moreover have "max e (- 1022) = e"
    using assms(3) by simp
  ultimately show ?thesis
    by (simp add: roundBinary64_def)
qed

lemma floor_rat_numeral: "\<lfloor>(numeral a / numeral b :: rat)\<rfloor> = numeral a div numeral b"
  using floor_divide_of_int_eq [of "numeral a" "numeral b", where ?'a = rat] by simp

lemma roundBinary64_eval:
  assumes "pow2 e \<le> \<bar>x\<bar>" and "\<bar>x\<bar> < pow2 (e + 1)" and "- 1022 \<le> e"
    and "roundHalfEven (\<bar>x\<bar> / pow2 (e - 52)) = m"
    and "of_int m * pow2 (e - 52) < pow2 1024"
  shows "roundBinary64 x = Num (sgn x * (of_int m * pow2 (e - 52)))"
  using assms(4,5) by (simp add: roundBinary64_normal [OF assms(1,2,3)] Let_def)

lemma roundBinary64_tenth: "roundBinary64 (1 / 10) = Num (3602879701896397 / 36028797018963968)"
  using roundBinary64_eval [of "- 4" "1 / 10" 7205759403792794]
  by (simp add: pow2_def roundHalfEven_def floor_rat_numeral)

lemma roundBinary64_overflow:
  assumes "pow2 e \<le> \<bar>x\<bar>" and "\<bar>x\<bar> < pow2 (e + 1)" and "- 1022 \<le> e"
    and "roundHalfEven (\<bar>x\<bar> / pow2 (e - 52)) = m"
    and "pow2 1024 \<le> of_int m * pow2 (e - 52)"
  shows "roundBinary64 x = (if 0 < x then PosInfinity else NegInfinity)"
  using assms(4,5) by (simp add: roundBinary64_normal [OF assms(1,2,3)] Let_def)

lemma roundBinary64_2_7: "roundBinary64 (27 / 10) = Num (3039929748475085 / 1125899906842624)"
  using roundBinary64_eval [of 1 "27 / 10" 6079859496950170]
  by (simp add: pow2_def roundHalfEven_def floor_rat_numeral)

lemma roundBinary64_2_6: "roundBinary64 (26 / 10) = Num (5854679515581645 / 2251799813685248)"
  using roundBinary64_eval [of 1 "26 / 10" 5854679515581645]
  by (simp add: pow2_def roundHalfEven_def floor_rat_numeral)

lemma round_iqr: "roundBinary64 (900719925474099 / 2251799813685248)
    = Num (900719925474099 / 2251799813685248)"
  using roundBinary64_eval [of "- 2" "900719925474099 / 2251799813685248" 7205759403792792]
  by (simp add: pow2_def roundHalfEven_def floor_rat_numeral)

lemma round_iqr_15: "roundBinary64 (2702159776422297 / 4503599627370496)
    = Num (2702159776422297 / 4503599627370496)"
  using roundBinary64_eval [of "- 1" "2702159776422297 / 4503599627370496" 5404319552844594]
  by (simp add: pow2_def roundHalfEven_def floor_rat_numeral)

lemma round_lower: "roundBinary64 (9007199254740993 / 4503599627370496) = Num 2"
  using roundBinary64_eval [of 1 "9007199254740993 / 4503599627370496" 4503599627370496]
  by (simp add: pow2_def roundHalfEven_def floor_rat_numeral)

lemma round_upper: "roundBinary64 (16212958658533785 / 4503599627370496)
    = Num (2026619832316723 / 562949953421312)"
  using roundBinary64_eval [of 1 "16212958658533785 / 4503599627370496" 8106479329266892]
  by (simp add: pow2_def roundHalfEven_def floor_rat_numeral)

lemma round_overflow:
  "roundBinary64 (2 * (5010420900022432 * 2 ^ 971)) = PosInfinity"
  using roundBinary64_overflow [of 1024 "2 * (5010420900022432 * 2 ^ 971)" 5010420900022432]
  by (simp add: pow2_def roundHalfEven_def floor_rat_numeral)

section \<open>The numeric branch\<close>

lemma elemAt_nat: "k < length xs \<Longrightarrow> elemAt xs (int k) = Some (xs ! k)"
  by (simp add: elemAt_def)

lemma floor_quarter: "\<lfloor>(of_nat n :: rat) * 0.25\<rfloor> = int (n div 4)"
proof -
  have "(of_nat n :: rat) * 0.25 = of_int (int n) / of_int 4"
    by simp
  then have "\<lfloor>(of_nat n :: rat) * 0.25\<rfloor> = int n div 4"
    by (simp only: floor_divide_of_int_eq)
  then show ?thesis
    by (simp add: zdiv_int)
qed

lemma floor_three_quarters: "\<lfloor>(of_nat n :: rat) * 0.75\<rfloor> = int (3 * n div 4)"
proof -
  have "(of_nat n :: rat) * 0.75 = of_int (int (3 * n)) / of_int 4"
    by simp
  then have "\<lfloor>(of_nat n :: rat) * 0.75\<rfloor> = int (3 * n) div 4"
    by (simp only: floor_divide_of_int_eq)
  then show ?thesis
    by (simp add: zdiv_int)
qed

lemma floor_half: "\<lfloor>(of_nat n :: rat) / 2\<rfloor> = int (n div 2)"
proof -
  have "(of_nat n :: rat) / 2 = of_int (int n) / of_int 2"
    by simp
  then have "\<lfloor>(of_nat n :: rat) / 2\<rfloor> = int n div 2"
    by (simp only: floor_divide_of_int_eq)
  then show ?thesis
    by (simp add: zdiv_int)
qed

lemma elemAt_last: "xs \<noteq> [] \<Longrightarrow> elemAt xs (int (length xs) - 1) = Some (xs ! (length xs - 1))"
  by (cases xs) (simp_all add: elemAt_def nat_diff_distrib')

lemma elemAt_pred: "0 < k \<Longrightarrow> k \<le> length xs \<Longrightarrow> elemAt xs (int k - 1) = Some (xs ! (k - 1))"
  using elemAt_nat [of "k - 1" xs] by (simp add: of_nat_diff)

lemma elemAt_zero: "xs \<noteq> [] \<Longrightarrow> elemAt xs 0 = Some (xs ! 0)"
  by (simp add: elemAt_def)

lemma length_insertAscending: "length (insertAscending v ws) = Suc (length ws)"
  by (induction ws) simp_all

lemma length_insert_all:
  "length (foldl (\<lambda>sorted v. insertAscending v sorted) acc vs) = length acc + length vs"
  by (induction vs arbitrary: acc) (simp_all add: length_insertAscending)

lemma length_sortAscending: "length (sortAscending vs) = length vs"
  by (simp add: sortAscending_def length_insert_all)

lemma median_defined:
  assumes "xs \<noteq> []"
  shows "(if length xs mod 2 = 0
          then Some (binary64 (jsdiv
                 (binary64 (jsadd (num (elemAt xs (int (length xs div 2) - 1)))
                                  (num (elemAt xs (int (length xs div 2))))))
                 (Num 2)))
          else elemAt xs \<lfloor>(of_nat (length xs) :: rat) / 2\<rfloor>)
         = Some (if length xs mod 2 = 0
                 then binary64 (jsdiv (binary64 (jsadd (xs ! (length xs div 2 - 1))
                                                       (xs ! (length xs div 2))))
                                      (Num 2))
                 else xs ! (length xs div 2))"
proof (cases "length xs mod 2 = 0")
  case True
  from assms have "0 < length xs"
    by simp
  with True have "2 \<le> length xs"
    by presburger
  then have "0 < length xs div 2" and "length xs div 2 < length xs"
    by (simp_all add: div_greater_zero_iff)
  then show ?thesis
    using True by (simp add: elemAt_pred elemAt_nat)
next
  case False
  from assms have "length xs div 2 < length xs"
    by simp
  then show ?thesis
    using False by (simp add: floor_half elemAt_nat)
qed

lemma numericAnalysis_nonempty:
  assumes "numericValues \<noteq> []"
  shows "\<exists>stats. numericAnalysis numericValues = Inr stats
     \<and> n_val stats = length numericValues
     \<and> min_val stats = Some (sortAscending numericValues ! 0)
     \<and> max_val stats = Some (sortAscending numericValues ! (length numericValues - 1))
     \<and> q1 stats = Some (sortAscending numericValues ! (length numericValues div 4))
     \<and> q3 stats = Some (sortAscending numericValues ! (3 * length numericValues div 4))
     \<and> iqr stats = binary64 (jssub (sortAscending numericValues ! (3 * length numericValues div 4))
                                   (sortAscending numericValues ! (length numericValues div 4)))
     \<and> lowerBound stats =
         binary64 (jssub (sortAscending numericValues ! (length numericValues div 4))
                         (binary64 (jsmul (Num 1.5) (iqr stats))))
     \<and> upperBound stats =
         binary64 (jsadd (sortAscending numericValues ! (3 * length numericValues div 4))
                         (binary64 (jsmul (Num 1.5) (iqr stats))))
     \<and> outliers stats =
         filter (\<lambda>v. jslt v (lowerBound stats) \<or> jslt (upperBound stats) v) numericValues"
proof -
  define sorted where "sorted = sortAscending numericValues"
  have len: "length sorted = length numericValues"
    by (simp add: sorted_def length_sortAscending)
  have ne: "sorted \<noteq> []"
  proof
    assume "sorted = []"
    then have "length sorted = 0" by simp
    with len assms show False by simp
  qed
  have pos: "0 < length numericValues"
    using assms by simp
  have i1: "length numericValues div 4 < length sorted"
    and i3: "3 * length numericValues div 4 < length sorted"
    using pos by (simp_all add: len div_less_iff_less_mult)
  have mn: "elemAt sorted 0 = Some (sorted ! 0)"
    by (rule elemAt_zero [OF ne])
  have mx: "elemAt sorted (int (length sorted) - 1) = Some (sorted ! (length numericValues - 1))"
    using elemAt_last [OF ne] by (simp add: len)
  have e1: "elemAt sorted \<lfloor>(of_nat (length numericValues) :: rat) * 0.25\<rfloor>
      = Some (sorted ! (length numericValues div 4))"
    by (simp only: floor_quarter elemAt_nat [OF i1])
  have e3: "elemAt sorted \<lfloor>(of_nat (length numericValues) :: rat) * 0.75\<rfloor>
      = Some (sorted ! (3 * length numericValues div 4))"
    by (simp only: floor_three_quarters elemAt_nat [OF i3])
  show ?thesis
    unfolding numericAnalysis_def Let_def sorted_def [symmetric]
    by (simp only: median_defined [OF ne] mn mx e1 e3) simp
qed

lemma isNumeric_nonempty:
  "(of_nat (length nv) :: rat) > of_nat m * 0.5 \<Longrightarrow> nv \<noteq> []"
  by (cases nv) auto






text \<open>
  Two columns on which the rounding decides. For the cells \<open>2.0, 2.7, 3.0, 2.6\<close> the
  exact lower fence lies just above \<open>2\<close>, the rounded one is \<open>2\<close>, and no value
  is flagged. For \<open>-1e308\<close> and \<open>1e308\<close> (the binary64 number
  \<open>5010420900022432 * 2^971\<close>) the range between the quartiles overflows to an
  infinity, and so do both fences.
\<close>

lemma rounded_fence_example:
  "\<exists>s. numericAnalysis [Num 2, Num (3039929748475085 / 1125899906842624), Num 3,
                        Num (5854679515581645 / 2251799813685248)] = Inr s
      \<and> q1 s = Some (Num (5854679515581645 / 2251799813685248)) \<and> q3 s = Some (Num 3)
      \<and> iqr s = Num (900719925474099 / 2251799813685248)
      \<and> lowerBound s = Num 2
      \<and> upperBound s = Num (2026619832316723 / 562949953421312)
      \<and> outliers s = []"
proof -
  let ?vs = "[Num 2, Num (3039929748475085 / 1125899906842624), Num 3,
              Num (5854679515581645 / 2251799813685248)]"
  have srt: "sortAscending ?vs = [Num 2, Num (5854679515581645 / 2251799813685248),
      Num (3039929748475085 / 1125899906842624), Num 3]"
    by (simp add: sortAscending_def)
  obtain s where s: "numericAnalysis ?vs = Inr s"
    and a: "q1 s = Some (sortAscending ?vs ! (length ?vs div 4))"
    and b: "q3 s = Some (sortAscending ?vs ! (3 * length ?vs div 4))"
    and c: "iqr s = binary64 (jssub (sortAscending ?vs ! (3 * length ?vs div 4))
                                   (sortAscending ?vs ! (length ?vs div 4)))"
    and d: "lowerBound s =
         binary64 (jssub (sortAscending ?vs ! (length ?vs div 4))
                         (binary64 (jsmul (Num 1.5) (iqr s))))"
    and e: "upperBound s =
         binary64 (jsadd (sortAscending ?vs ! (3 * length ?vs div 4))
                         (binary64 (jsmul (Num 1.5) (iqr s))))"
    and f: "outliers s =
         filter (\<lambda>v. jslt v (lowerBound s) \<or> jslt (upperBound s) v) ?vs"
    using numericAnalysis_nonempty [of ?vs] by auto
  have a': "q1 s = Some (Num (5854679515581645 / 2251799813685248))"
    using a by (simp add: srt)
  have b': "q3 s = Some (Num 3)"
    using b by (simp add: srt)
  have "iqr s = binary64 (jssub (Num 3) (Num (5854679515581645 / 2251799813685248)))"
    using c by (simp add: srt)
  then have q: "iqr s = Num (900719925474099 / 2251799813685248)"
    by (simp add: jssub_def round_iqr)
  have l: "lowerBound s = Num 2"
    using d by (simp add: srt q round_iqr_15 jssub_def round_lower)
  have u: "upperBound s = Num (2026619832316723 / 562949953421312)"
    using e by (simp add: srt q round_iqr_15 round_upper)
  have o: "outliers s = []"
    by (simp add: f l u)
  from s a' b' q l u o show ?thesis
    by simp
qed

lemma infinite_range:
  assumes m: "0 < m" and r: "roundBinary64 (m + m) = PosInfinity"
  shows "\<exists>s. numericAnalysis [Num (- m), Num m] = Inr s
      \<and> iqr s = PosInfinity \<and> lowerBound s = NegInfinity \<and> upperBound s = PosInfinity
      \<and> outliers s = []"
proof -
  let ?vs = "[Num (- m), Num m]"
  have srt: "sortAscending ?vs = ?vs"
    using m by (simp add: sortAscending_def)
  obtain s where s: "numericAnalysis ?vs = Inr s"
    and c: "iqr s = binary64 (jssub (sortAscending ?vs ! (3 * length ?vs div 4))
                                   (sortAscending ?vs ! (length ?vs div 4)))"
    and d: "lowerBound s =
         binary64 (jssub (sortAscending ?vs ! (length ?vs div 4))
                         (binary64 (jsmul (Num 1.5) (iqr s))))"
    and e: "upperBound s =
         binary64 (jsadd (sortAscending ?vs ! (3 * length ?vs div 4))
                         (binary64 (jsmul (Num 1.5) (iqr s))))"
    and f: "outliers s =
         filter (\<lambda>v. jslt v (lowerBound s) \<or> jslt (upperBound s) v) ?vs"
    using numericAnalysis_nonempty [of ?vs] by auto
  have q: "iqr s = PosInfinity"
    using c r by (simp add: srt jssub_def)
  have l: "lowerBound s = NegInfinity"
    using d by (simp add: srt q infinityOfSign_def jssub_def)
  have u: "upperBound s = PosInfinity"
    using e by (simp add: srt q infinityOfSign_def)
  have o: "outliers s = []"
    by (simp add: f l u)
  from s q l u o show ?thesis
    by simp
qed

lemma infinite_range_example:
  "\<exists>s. numericAnalysis [Num (- (5010420900022432 * 2 ^ 971)), Num (5010420900022432 * 2 ^ 971)]
        = Inr s
      \<and> iqr s = PosInfinity \<and> lowerBound s = NegInfinity \<and> upperBound s = PosInfinity
      \<and> outliers s = []"
  using infinite_range [of "5010420900022432 * 2 ^ 971"] round_overflow
  by simp





section \<open>The profiler never raises\<close>

lemma analyzeVariable_ok: "\<exists>v. analyzeVariable parseFloat data header = Inr v"
proof (cases "columnValues data header = []")
  case True
  then show ?thesis
    by (simp add: analyzeVariable_def)
next
  case False
  define nv where "nv = numericValuesOf parseFloat (columnValues data header)"
  show ?thesis
  proof (cases "(of_nat (length nv) :: rat) > of_nat (length (columnValues data header)) * 0.5")
    case True
    then have "nv \<noteq> []"
      by (rule isNumeric_nonempty)
    then obtain s where "numericAnalysis nv = Inr s"
      using numericAnalysis_nonempty by blast
    with True False show ?thesis
      by (simp add: analyzeVariable_def Let_def nv_def)
  next
    case no: False
    with False show ?thesis
      by (simp add: analyzeVariable_def Let_def nv_def)
  qed
qed

lemma analyzeVariables_ok: "\<exists>vs. analyzeVariables parseFloat data hs = Inr vs"
proof (induction hs)
  case Nil
  show ?case by simp
next
  case (Cons h hs)
  obtain v where "analyzeVariable parseFloat data h = Inr v"
    using analyzeVariable_ok by blast
  with Cons show ?case
    by auto
qed

lemma columnValues_no_rows: "rows data = [] \<Longrightarrow> columnValues data header = []"
  by (simp add: columnValues_def)

lemma analyzeVariables_no_rows:
  "rows data = [] \<Longrightarrow>
   analyzeVariables parseFloat data hs = Inr (map (\<lambda>h. (h, NoPopulatedValues)) hs)"
  by (induction hs) (simp_all add: analyzeVariable_def columnValues_no_rows)

text \<open>
  Claim C5 says that profiling fails exactly when the dataset has no column. The function
  has no check on the number of columns and no \<open>throw\<close>; the only calls that could
  raise (\<open>toLocaleString\<close> on an array element that is \<open>undefined\<close>) are reached
  with the element present. Claim C5 as amended: profiling returns a report for every
  dataset, also one without columns, and for a dataset without rows the report describes
  every column as having no populated values.
\<close>

theorem generateInsights_never_fails:
  "(\<exists>report. generateInsights parseFloat data = Inr report)
   \<and> (rows data = [] \<longrightarrow>
        (\<exists>report. generateInsights parseFloat data = Inr report
           \<and> reportVariables report = map (\<lambda>h. (h, NoPopulatedValues)) (headers data)))"
proof (intro conjI impI)
  obtain vs where "analyzeVariables parseFloat data (headers data) = Inr vs"
    using analyzeVariables_ok by blast
  then show "\<exists>report. generateInsights parseFloat data = Inr report"
    by (simp add: generateInsights_def)
next
  assume "rows data = []"
  then show "\<exists>report. generateInsights parseFloat data = Inr report
           \<and> reportVariables report = map (\<lambda>h. (h, NoPopulatedValues)) (headers data)"
    by (simp add: generateInsights_def analyzeVariables_no_rows)
qed

theorem generateInsights_never_fails_witness:
  "rows \<lparr>headers = [ascii ''a'', ascii ''b''], rows = [], rowCount = 0\<rparr> = []
   \<and> (\<exists>report. generateInsights (\<lambda>s. NaN)
                   \<lparr>headers = [ascii ''a'', ascii ''b''], rows = [], rowCount = 0\<rparr> = Inr report
         \<and> reportVariables report
             = [(ascii ''a'', NoPopulatedValues), (ascii ''b'', NoPopulatedValues)])"
  using generateInsights_never_fails
    [of "\<lambda>s. NaN" "\<lparr>headers = [ascii ''a'', ascii ''b''], rows = [], rowCount = 0\<rparr>"]
  by simp

text \<open>
  Claim C5 as stated fails on the dataset with no column and no row: the function returns
  a report (whose completeness is \<open>NaN\<close>) instead of failing.
\<close>

theorem generateInsights_zero_columns_returns:
  "generateInsights (\<lambda>s. NaN) \<lparr>headers = [], rows = [], rowCount = 0\<rparr>
     = Inr \<lparr>reportCompleteness = NaN, reportVariables = [], reportDuplicates = 0\<rparr>"
  by (simp add: generateInsights_def completeness_def totalCells_def emptyCount_def
        duplicates_def rowStrings_def infinityOfSign_def)

section \<open>Completeness\<close>

lemma foldl_count:
  "foldl (\<lambda>count row. count + f row) (a :: nat) rs = a + sum_list (map f rs)"
  by (induction rs arbitrary: a) simp_all

lemma trim_Nil: "trim [] = []"
  by (simp add: trim_def)

lemma isEmptyCell_iff: "isEmptyCell cell \<longleftrightarrow> trim cell = []"
  by (auto simp: isEmptyCell_def trim_Nil)

lemma isPopulated_iff: "isPopulated (Some cell) \<longleftrightarrow> trim cell \<noteq> []"
  by (auto simp: trim_Nil)

lemma emptyCount_sum:
  "emptyCount data = (\<Sum>row\<leftarrow>rows data. length (filter (\<lambda>c. trim c = []) row))"
proof -
  have "isEmptyCell = (\<lambda>c. trim c = [])"
    by (rule ext) (simp add: isEmptyCell_iff)
  then show ?thesis
    by (simp add: emptyCount_def foldl_count)
qed

lemma emptyCount_le:
  assumes "rowCount data = length (rows data)"
    and "\<forall>row \<in> set (rows data). length row = length (headers data)"
  shows "emptyCount data \<le> totalCells data"
proof -
  have "(\<Sum>row\<leftarrow>rs. length (filter (\<lambda>c. trim c = []) row)) \<le> length rs * m"
    if "\<forall>row \<in> set rs. length row = m" for rs :: "jsstring list list" and m
    using that
  proof (induction rs)
    case Nil
    show ?case by simp
  next
    case (Cons r rs)
    have "length (filter (\<lambda>c. trim c = []) r) \<le> m"
      using Cons.prems length_filter_le [of "\<lambda>c. trim c = []" r] by simp
    with Cons show ?case
      by simp
  qed
  with assms show ?thesis
    by (simp add: emptyCount_sum totalCells_def)
qed

lemma completeness_in_range:
  assumes "rowCount data = length (rows data)"
    and "\<forall>row \<in> set (rows data). length row = length (headers data)"
    and "0 < totalCells data"
  shows "\<exists>c. completeness data = Num c \<and> 0 \<le> c \<and> c \<le> 100
           \<and> (c = 100 \<longleftrightarrow> emptyCount data = 0)"
proof -
  define t where "t = totalCells data"
  define e where "e = emptyCount data"
  have le: "e \<le> t" and pos: "0 < t"
    using emptyCount_le [OF assms(1,2)] assms(3) by (simp_all add: t_def e_def)
  define c :: rat where "c = of_int (int t - int e) / of_nat t * 100"
  have comp: "completeness data = Num c"
    using pos by (simp add: completeness_def c_def t_def e_def)
  have c': "c = (of_nat t - of_nat e) / of_nat t * 100"
    by (simp add: c_def)
  have tp: "(0 :: rat) < of_nat t"
    using pos by simp
  have el: "(of_nat e :: rat) \<le> of_nat t"
    using le by simp
  have "0 \<le> c"
    using tp el by (simp add: c')
  moreover have "c \<le> 100"
    using tp el by (simp add: c' field_simps)
  moreover have "c = 100 \<longleftrightarrow> e = 0"
    using tp by (simp add: c' field_simps)
  ultimately show ?thesis
    using comp by (simp add: e_def)
qed

text \<open>
  Claim C8 asks that completeness lies in \<open>[0, 100]\<close> for every dataset and is 100
  exactly when there is no empty cell. For a dataset with at least one cell whose rows are
  aligned with the headers this holds (\<open>completeness_in_range\<close>). For a dataset with a
  column and no row, which has no empty cell, the code divides zero by zero: completeness
  is \<open>NaN\<close>, neither 100 nor in the interval.
\<close>

theorem completeness_of_zero_rows_is_NaN:
  "completeness \<lparr>headers = [ascii ''a''], rows = [], rowCount = 0\<rparr> = NaN
   \<and> emptyCount \<lparr>headers = [ascii ''a''], rows = [], rowCount = 0\<rparr> = 0"
  by (simp add: completeness_def totalCells_def emptyCount_def infinityOfSign_def)

section \<open>Duplicate rows\<close>

lemma duplicates_reorder:
  assumes "mset (rows d2) = mset (rows d1)" and "rowCount d2 = rowCount d1"
  shows "duplicates d2 = duplicates d1"
proof -
  from assms(1) have "set (rows d2) = set (rows d1)"
    by (rule mset_eq_setD)
  then have "set (rowStrings d2) = set (rowStrings d1)"
    by (simp add: rowStrings_def)
  then have "length (remdups (rowStrings d2)) = length (remdups (rowStrings d1))"
    by (simp add: length_remdups_card_conv)
  with assms(2) show ?thesis
    by (simp add: duplicates_def)
qed

lemma join_Cons: "zs \<noteq> [] \<Longrightarrow> join sep (x # zs) = x @ sep @ join sep zs"
  by (cases zs) simp_all

lemma join_one_cell:
  "join sep (xs @ a # ys) =
     concat (map (\<lambda>x. x @ sep) xs) @ a @ concat (map (\<lambda>y. sep @ y) ys)"
proof (induction xs)
  case Nil
  show ?case
    by (induction ys arbitrary: a) (simp_all add: join_Cons)
next
  case (Cons x xs)
  then show ?case
    by (simp add: join_Cons)
qed

lemma single_cell_difference:
  "a \<noteq> b \<Longrightarrow> join sep (xs @ a # ys) \<noteq> join sep (xs @ b # ys)"
  by (simp add: join_one_cell)

lemma single_cell_difference_not_duplicate:
  assumes "a \<noteq> b"
  shows "duplicates \<lparr>headers = hs, rows = [xs @ a # ys, xs @ b # ys], rowCount = 2\<rparr> = 0"
  using single_cell_difference [OF assms, of "ascii ''|''" xs ys]
  by (simp add: duplicates_def rowStrings_def)

lemma join_collision:
  "join (ascii ''|'') [ascii ''x|y'', ascii ''z''] = join (ascii ''|'') [ascii ''x'', ascii ''y|z'']"
  by (simp add: ascii_def)

text \<open>
  Claim C7 asks that two rows count as duplicates exactly when all their cells agree. The
  count is invariant under reordering (\<open>duplicates_reorder\<close>) and two rows that differ
  in one cell are not duplicates (\<open>single_cell_difference_not_duplicate\<close>), but rows are
  compared through \<open>row.join("|")\<close>: the rows \<open>["x|y", "z"]\<close> and
  \<open>["x", "y|z"]\<close> differ in both cells, join to the same string and are counted as one
  duplicate.
\<close>

theorem duplicates_counts_distinct_rows:
  "duplicates \<lparr>headers = [ascii ''a'', ascii ''b''],
               rows = [[ascii ''x|y'', ascii ''z''], [ascii ''x'', ascii ''y|z'']],
               rowCount = 2\<rparr> = 1
   \<and> ascii ''x|y'' \<noteq> ascii ''x''
   \<and> ascii ''z'' \<noteq> ascii ''y|z''"
  by (simp add: duplicates_def rowStrings_def join_collision) (simp add: ascii_def)

section \<open>Empty cells\<close>

lemma length_filter_sum:
  "length (filter P xs) = (\<Sum>x\<leftarrow>xs. if P x then 1 else 0)"
  by (induction xs) simp_all

lemma count_by_index:
  "(\<Sum>i\<leftarrow>[0..<length r]. if P (r ! i) then 1 else 0 :: nat) = length (filter P r)"
proof -
  have "map (\<lambda>i. if P (r ! i) then 1 else 0 :: nat) [0..<length r]
      = map (\<lambda>x. if P x then 1 else 0) (map (\<lambda>i. r ! i) [0..<length r])"
    by simp
  also have "\<dots> = map (\<lambda>x. if P x then 1 else 0) r"
    by (simp only: map_nth)
  finally show ?thesis
    by (simp add: length_filter_sum)
qed

lemma columns_rows_swap:
  assumes "\<forall>row \<in> set rs. length row = m"
  shows "(\<Sum>i\<leftarrow>[0..<m]. length (filter P (map (\<lambda>row. row ! i) rs)))
       = (\<Sum>row\<leftarrow>rs. length (filter P row))"
  using assms
proof (induction rs)
  case Nil
  show ?case by simp
next
  case (Cons r rs)
  have "(\<Sum>i\<leftarrow>[0..<m]. length (filter P (map (\<lambda>row. row ! i) (r # rs))))
      = (\<Sum>i\<leftarrow>[0..<m]. (if P (r ! i) then 1 else 0)
                          + length (filter P (map (\<lambda>row. row ! i) rs)))"
    by (rule arg_cong [where f = sum_list]) simp
  also have "\<dots> = (\<Sum>i\<leftarrow>[0..<m]. if P (r ! i) then 1 else 0)
                 + (\<Sum>i\<leftarrow>[0..<m]. length (filter P (map (\<lambda>row. row ! i) rs)))"
    by (simp add: sum_list_addf)
  also have "(\<Sum>i\<leftarrow>[0..<m]. if P (r ! i) then 1 else 0 :: nat) = length (filter P r)"
    using Cons.prems count_by_index [of P r] by simp
  finally show ?case
    using Cons by simp
qed

lemma indexOf_nonneg_or_minus1: "indexOf hs h = - 1 \<or> 0 \<le> indexOf hs h"
  by (induction hs) (auto simp: Let_def)

lemma indexOf_nth: "distinct hs \<Longrightarrow> i < length hs \<Longrightarrow> indexOf hs (hs ! i) = int i"
proof (induction hs arbitrary: i)
  case Nil
  then show ?case by simp
next
  case (Cons a hs)
  show ?case
  proof (cases i)
    case 0
    then show ?thesis by simp
  next
    case (Suc j)
    with Cons.prems have "a \<noteq> hs ! j" and "indexOf hs (hs ! j) = int j"
      using Cons.IH [of j] by auto
    with Suc show ?thesis
      by (simp add: Let_def)
  qed
qed

lemma columnValues_filter:
  assumes "\<forall>row \<in> set (rows data). length row = length (headers data)"
    and "distinct (headers data)" and "i < length (headers data)"
  shows "columnValues data (headers data ! i)
       = filter (\<lambda>c. trim c \<noteq> []) (map (\<lambda>row. row ! i) (rows data))"
proof -
  have "concat (map (\<lambda>row. case elemAt row (int i) of
                              None \<Rightarrow> []
                            | Some val \<Rightarrow> if isPopulated (Some val) then [val] else []) rs)
      = filter (\<lambda>c. trim c \<noteq> []) (map (\<lambda>row. row ! i) rs)"
    if "\<forall>row \<in> set rs. i < length row" for rs :: "jsstring list list"
    using that by (induction rs) (auto simp: elemAt_def trim_Nil)
  with assms show ?thesis
    by (simp add: columnValues_def indexOf_nth)
qed

lemma missingCount_column:
  assumes "rowCount data = length (rows data)"
    and "\<forall>row \<in> set (rows data). length row = length (headers data)"
    and "distinct (headers data)" and "i < length (headers data)"
  shows "missingCount data (headers data ! i)
       = int (length (filter (\<lambda>c. trim c = []) (map (\<lambda>row. row ! i) (rows data))))"
proof -
  have "length (filter (\<lambda>c. trim c = []) xs) + length (filter (\<lambda>c. trim c \<noteq> []) xs)
      = length xs" for xs :: "jsstring list"
    using sum_length_filter_compl [of "\<lambda>c. trim c = []" xs] by simp
  from this [of "map (\<lambda>row. row ! i) (rows data)"] show ?thesis
    by (simp add: missingCount_def columnValues_filter [OF assms(2-4)] assms(1))
qed

lemma sum_list_int_map: "(\<Sum>x\<leftarrow>xs. int (g x)) = int (\<Sum>x\<leftarrow>xs. g x)"
  by (induction xs) simp_all

lemma missingCount_total:
  assumes "rowCount data = length (rows data)"
    and "\<forall>row \<in> set (rows data). length row = length (headers data)"
    and "distinct (headers data)"
  shows "(\<Sum>h\<leftarrow>headers data. missingCount data h) = int (emptyCount data)"
proof -
  have "map (missingCount data) (headers data)
      = map (\<lambda>i. missingCount data (headers data ! i)) [0..<length (headers data)]"
    by (rule nth_equalityI) simp_all
  also have "\<dots> = map (\<lambda>i. int (length (filter (\<lambda>c. trim c = [])
                        (map (\<lambda>row. row ! i) (rows data))))) [0..<length (headers data)]"
    using assms by (simp add: missingCount_column)
  finally have "(\<Sum>h\<leftarrow>headers data. missingCount data h)
      = int (\<Sum>i\<leftarrow>[0..<length (headers data)].
               length (filter (\<lambda>c. trim c = []) (map (\<lambda>row. row ! i) (rows data))))"
    by (simp only: sum_list_int_map)
  then show ?thesis
    by (simp only: columns_rows_swap [OF assms(2)] emptyCount_sum)
qed

text \<open>
  Claim C10: a cell is empty exactly when it trims to the empty string, in every
  computation. The test of the completeness count and the test of the column filter are
  each other's negation; on a dataset whose rows are aligned with distinct headers and
  whose \<open>rowCount\<close> is the number of rows, the values of a column (from which kind,
  cardinality and statistics are computed) are its cells that do not trim to nothing, its
  missing count is the number of its cells that do, and the missing counts of all columns
  add up to the empty count of the completeness metric.
\<close>

theorem empty_cells_consistent:
  assumes "rowCount data = length (rows data)"
    and "\<forall>row \<in> set (rows data). length row = length (headers data)"
    and "distinct (headers data)"
  shows "(\<forall>cell. isEmptyCell cell \<longleftrightarrow> trim cell = [])
     \<and> (\<forall>cell. isPopulated (Some cell) \<longleftrightarrow> \<not> isEmptyCell cell)
     \<and> emptyCount data = (\<Sum>row\<leftarrow>rows data. length (filter (\<lambda>c. trim c = []) row))
     \<and> (\<forall>i < length (headers data).
          columnValues data (headers data ! i)
            = filter (\<lambda>c. trim c \<noteq> []) (map (\<lambda>row. row ! i) (rows data))
          \<and> missingCount data (headers data ! i)
            = int (length (filter (\<lambda>c. trim c = []) (map (\<lambda>row. row ! i) (rows data)))))
     \<and> (\<Sum>h\<leftarrow>headers data. missingCount data h) = int (emptyCount data)"
proof (intro conjI allI impI)
  show "isEmptyCell cell \<longleftrightarrow> trim cell = []" for cell
    by (rule isEmptyCell_iff)
  show "isPopulated (Some cell) \<longleftrightarrow> \<not> isEmptyCell cell" for cell
    by (simp only: isPopulated_iff isEmptyCell_iff)
  show "emptyCount data = (\<Sum>row\<leftarrow>rows data. length (filter (\<lambda>c. trim c = []) row))"
    by (rule emptyCount_sum)
  show "columnValues data (headers data ! i)
      = filter (\<lambda>c. trim c \<noteq> []) (map (\<lambda>row. row ! i) (rows data))"
    if "i < length (headers data)" for i
    by (rule columnValues_filter [OF assms(2,3) that])
  show "missingCount data (headers data ! i)
      = int (length (filter (\<lambda>c. trim c = []) (map (\<lambda>row. row ! i) (rows data))))"
    if "i < length (headers data)" for i
    by (rule missingCount_column [OF assms that])
  show "(\<Sum>h\<leftarrow>headers data. missingCount data h) = int (emptyCount data)"
    by (rule missingCount_total [OF assms])
qed

lemma ascii_eq_Nil: "ascii s = [] \<longleftrightarrow> s = []"
  by (simp add: ascii_def)

theorem empty_cells_consistent_witness:
  "rowCount \<lparr>headers = [ascii ''a'', ascii ''b''],
             rows = [[ascii ''x'', ascii '' ''], [[], ascii ''y'']], rowCount = 2\<rparr> = 2
   \<and> emptyCount \<lparr>headers = [ascii ''a'', ascii ''b''],
             rows = [[ascii ''x'', ascii '' ''], [[], ascii ''y'']], rowCount = 2\<rparr> = 2
   \<and> columnValues \<lparr>headers = [ascii ''a'', ascii ''b''],
             rows = [[ascii ''x'', ascii '' ''], [[], ascii ''y'']], rowCount = 2\<rparr>
          (ascii ''b'') = [ascii ''y'']
   \<and> missingCount \<lparr>headers = [ascii ''a'', ascii ''b''],
             rows = [[ascii ''x'', ascii '' ''], [[], ascii ''y'']], rowCount = 2\<rparr>
          (ascii ''b'') = 1"
proof -
  let ?d = "\<lparr>headers = [ascii ''a'', ascii ''b''],
             rows = [[ascii ''x'', ascii '' ''], [[], ascii ''y'']], rowCount = 2\<rparr>"
  have h1: "rowCount ?d = length (rows ?d)"
    by simp
  have h2: "\<forall>row \<in> set (rows ?d). length row = length (headers ?d)"
    by simp
  have h3: "distinct (headers ?d)"
    by (simp add: ascii_def)
  have t1: "trim (ascii ''x'') = ascii ''x''" and t2: "trim (ascii '' '') = []"
    and t3: "trim (ascii ''y'') = ascii ''y''"
    by (simp_all add: trim_def ascii_def isWhiteSpace_def)
  note c = empty_cells_consistent [OF h1 h2 h3]
  from c have "emptyCount ?d = (\<Sum>row\<leftarrow>rows ?d. length (filter (\<lambda>c. trim c = []) row))"
    by blast
  then have e: "emptyCount ?d = 2"
    by (simp add: t1 t2 t3 trim_Nil ascii_eq_Nil)
  from c have "\<forall>i < length (headers ?d).
          columnValues ?d (headers ?d ! i)
            = filter (\<lambda>c. trim c \<noteq> []) (map (\<lambda>row. row ! i) (rows ?d))
          \<and> missingCount ?d (headers ?d ! i)
            = int (length (filter (\<lambda>c. trim c = []) (map (\<lambda>row. row ! i) (rows ?d))))"
    by blast
  moreover have "1 < length (headers ?d)"
    by simp
  ultimately have i1: "columnValues ?d (headers ?d ! 1)
            = filter (\<lambda>c. trim c \<noteq> []) (map (\<lambda>row. row ! 1) (rows ?d))
          \<and> missingCount ?d (headers ?d ! 1)
            = int (length (filter (\<lambda>c. trim c = []) (map (\<lambda>row. row ! 1) (rows ?d))))"
    by blast
  have hb: "headers ?d ! 1 = ascii ''b''"
    by simp
  have cv: "filter (\<lambda>c. trim c \<noteq> []) (map (\<lambda>row. row ! 1) (rows ?d)) = [ascii ''y'']"
    by (simp add: t2 t3 ascii_eq_Nil)
  have mc: "int (length (filter (\<lambda>c. trim c = []) (map (\<lambda>row. row ! 1) (rows ?d)))) = 1"
    by (simp add: t2 t3 ascii_eq_Nil)
  from i1 have "columnValues ?d (ascii ''b'') = [ascii ''y'']
      \<and> missingCount ?d (ascii ''b'') = 1"
    by (simp only: hb cv mc)
  with e show ?thesis
    by simp
qed

section \<open>Dependence on the clock\<close>





























end
